theory Spec2Isabelle
  imports Main "HOL-Library.Sublist" "HOL-Library.Char_ord" "HOL-Library.List_Lexorder"
    "HOL-Library.Product_Lexorder"
begin

section \<open>Python string primitives used by the build scripts\<close>

text \<open>
  A Python \<open>str\<close> is modelled as a \<open>string\<close>; a \<open>char\<close> stands for a code point below
  256. \<open>isspace\<close> lists the code points below 256 that \<open>str.strip\<close>, \<open>str.lstrip\<close>
  and \<open>str.isspace\<close> treat as whitespace: TAB, LF, VT, FF, CR, the separators
  0x1C..0x1F, SPACE, NEL (0x85) and NBSP (0xA0).
\<close>

definition isspace :: "char \<Rightarrow> bool" where
  "isspace c = (c \<in> set [CHR 0x09, CHR 0x0A, CHR 0x0B, CHR 0x0C, CHR 0x0D,
      CHR 0x1C, CHR 0x1D, CHR 0x1E, CHR 0x1F, CHR 0x20, CHR 0x85, CHR 0xA0])"

text \<open>\<open>s.lstrip()\<close>, \<open>s.strip()\<close> and \<open>s.rstrip("\r")\<close>.\<close>

definition lstrip :: "string \<Rightarrow> string" where
  "lstrip s = dropWhile isspace s"

definition strip :: "string \<Rightarrow> string" where
  "strip s = rev (dropWhile isspace (rev (dropWhile isspace s)))"

definition rstrip_cr :: "string \<Rightarrow> string" where
  "rstrip_cr s = rev (dropWhile (\<lambda>c. c = CHR 0x0D) (rev s))"

text \<open>\<open>s.startswith(p)\<close>.\<close>

definition startswith :: "string \<Rightarrow> string \<Rightarrow> bool" where
  "startswith p s = prefix p s"

text \<open>
  \<open>sep.join(xs)\<close>: the elements with \<open>sep\<close> between neighbours; the empty list gives
  the empty string.
\<close>

fun join_py :: "string \<Rightarrow> string list \<Rightarrow> string" where
  "join_py sep [] = []"
| "join_py sep [x] = x"
| "join_py sep (x # y # ys) = x @ sep @ join_py sep (y # ys)"

text \<open>
  \<open>s.split(sep)\<close> for a non-empty separator: the occurrences of \<open>sep\<close> are found from the
  left and do not overlap; the result always has at least one piece. Both call sites
  pass a literal, non-empty separator (\<open>"\n"\<close> and \<open>"\n\n"\<close>); Python raises
  \<open>ValueError\<close> for an empty one, which the model leaves as the unsplit string.
\<close>

function split_py :: "string \<Rightarrow> string \<Rightarrow> string list" where
  "split_py sep [] = [[]]"
| "split_py sep (c # cs) =
     (if sep \<noteq> [] \<and> prefix sep (c # cs)
      then [] # split_py sep (drop (length sep) (c # cs))
      else (case split_py sep cs of
              [] \<Rightarrow> [[c]]
            | piece # pieces \<Rightarrow> (c # piece) # pieces))"
  by pat_completeness auto
termination
  by (relation "measure (\<lambda>(sep, s). length s)") auto

abbreviation nl :: string where
  "nl \<equiv> [CHR 0x0A]"

abbreviation nlnl :: string where
  "nlnl \<equiv> [CHR 0x0A, CHR 0x0A]"

section \<open>build_books.py: packing paragraphs into pages\<close>

definition TARGET_CHARS_PER_PAGE :: nat where
  "TARGET_CHARS_PER_PAGE = 1000"

definition MIN_CHARS_PER_PAGE :: nat where
  "MIN_CHARS_PER_PAGE = 450"

definition PAGE_BREAK :: string where
  "PAGE_BREAK = ''__PAGE_BREAK__''"

text \<open>
  The three local variables of the packing loop of \<open>build_pages_from_paragraphs\<close>:
  the completed pages, the paragraphs of the page under construction and their
  accumulated length.
\<close>

record packer =
  pages :: "string list"
  current :: "string list"
  current_len :: nat

definition packer_init :: packer where
  "packer_init = \<lparr> pages = [], current = [], current_len = 0 \<rparr>"

definition is_heading :: "string \<Rightarrow> bool" where
  "is_heading para = startswith ''# '' (lstrip para)"

text \<open>
  One iteration of \<open>for para in paragraphs\<close>. \<open>pages[-1]\<close> is read only under the
  guard \<open>len(pages) > 0\<close>, so the loop body has no failing branch.
\<close>

definition pack_step :: "packer \<Rightarrow> string \<Rightarrow> packer" where
  "pack_step st para =
    (if para = PAGE_BREAK then
       (if current st \<noteq> []
        then \<lparr> pages = pages st @ [join_py nlnl (current st)], current = [], current_len = 0 \<rparr>
        else st)
     else if is_heading para then
       (let st1 =
          (if current st \<noteq> [] then
             (if length (pages st) > 0 \<and> current_len st < MIN_CHARS_PER_PAGE
              then \<lparr> pages = butlast (pages st)
                          @ [join_py nlnl [last (pages st), join_py nlnl (current st)]],
                     current = [], current_len = 0 \<rparr>
              else \<lparr> pages = pages st @ [join_py nlnl (current st)],
                     current = [], current_len = 0 \<rparr>)
           else st)
        in \<lparr> pages = pages st1, current = current st1 @ [para], current_len = length para \<rparr>)
     else
       (let para_len = length para in
        if current st \<noteq> [] \<and> current_len st + para_len > TARGET_CHARS_PER_PAGE
        then \<lparr> pages = pages st @ [join_py nlnl (current st)],
               current = [para], current_len = para_len \<rparr>
        else \<lparr> pages = pages st, current = current st @ [para],
               current_len = current_len st + para_len \<rparr>))"

text \<open>The packing loop and the final flush of the pending page.\<close>

definition pack_pages :: "string list \<Rightarrow> string list" where
  "pack_pages paragraphs =
    (let st = foldl pack_step packer_init paragraphs in
     if current st \<noteq> [] then pages st @ [join_py nlnl (current st)] else pages st)"

section \<open>build_books.py: the heading-only repair loop\<close>

text \<open>
  The test of the \<open>while\<close> loop on a page: its blocks are the pieces between blank-line
  separators that are not all whitespace; the page is heading-only when there is exactly
  one block and that block, left-trimmed, starts with \<open>"# "\<close>.
\<close>

definition heading_only :: "string \<Rightarrow> bool" where
  "heading_only page =
    (let blocks = filter (\<lambda>b. strip b \<noteq> []) (split_py nlnl page)
     in length blocks = 1 \<and> startswith ''# '' (lstrip (blocks ! 0)))"

text \<open>
  The loop condition \<open>i < len(pages) - 1\<close> over Python's integers, and the loop body on
  the pair of the cursor and the page list: a merge (\<open>pages[i] = pages[i] + "\n\n" +
  pages[i + 1]; del pages[i + 1]\<close>, cursor unchanged) or an advance. Under the loop
  condition both \<open>i\<close> and \<open>i + 1\<close> are valid indices.
\<close>

definition repair_cond :: "nat \<times> string list \<Rightarrow> bool" where
  "repair_cond s = (case s of (i, pgs) \<Rightarrow> int i < int (length pgs) - 1)"

definition merge_next :: "nat \<Rightarrow> string list \<Rightarrow> string list" where
  "merge_next i pgs =
    (let pgs1 = pgs[i := pgs ! i @ nlnl @ pgs ! (i + 1)]
     in take (i + 1) pgs1 @ drop (i + 2) pgs1)"

definition repair_body :: "nat \<times> string list \<Rightarrow> nat \<times> string list" where
  "repair_body s =
    (case s of (i, pgs) \<Rightarrow>
       if heading_only (pgs ! i) then (i, merge_next i pgs) else (i + 1, pgs))"

function repair_loop :: "nat \<times> string list \<Rightarrow> string list" where
  "repair_loop s = (if repair_cond s then repair_loop (repair_body s) else snd s)"
  by pat_completeness auto
termination
  by (relation "measure (\<lambda>(i, pgs). length pgs - 1 - i)")
     (auto simp: repair_cond_def repair_body_def merge_next_def split: if_splits)

declare repair_loop.simps [simp del]

definition build_pages_from_paragraphs :: "string list \<Rightarrow> string list" where
  "build_pages_from_paragraphs paragraphs = repair_loop (0, pack_pages paragraphs)"

section \<open>build_books.py: splitting the manuscript into paragraphs\<close>

definition PAGE_SENTINEL :: string where
  "PAGE_SENTINEL = ''===PAGE===''"

text \<open>
  The state of the loop of \<open>parse_paragraphs\<close> is the pair of \<open>paragraphs\<close> and
  \<open>current_lines\<close>; \<open>flush\<close> is the shared
  \<open>if current_lines: paragraphs.append("\n".join(current_lines).strip())\<close>.
\<close>

definition flush :: "string list \<times> string list \<Rightarrow> string list" where
  "flush s = (case s of (paragraphs, current_lines) \<Rightarrow>
     if current_lines \<noteq> [] then paragraphs @ [strip (join_py nl current_lines)]
     else paragraphs)"

definition parse_step :: "string list \<times> string list \<Rightarrow> string \<Rightarrow> string list \<times> string list" where
  "parse_step s raw_line =
    (let line = rstrip_cr raw_line in
     if strip line = PAGE_SENTINEL then (flush s @ [PAGE_BREAK], [])
     else if strip line = [] then (flush s, [])
     else (fst s, snd s @ [line]))"

definition parse_paragraphs :: "string \<Rightarrow> string list" where
  "parse_paragraphs text = flush (foldl parse_step ([], []) (split_py nl text))"

section \<open>build_books.py: rendering a page\<close>

text \<open>
  \<open>html.escape(text)\<close> with its default \<open>quote=True\<close>: the five characters
  \<open>&\<close>, \<open><\<close>, \<open>>\<close>, the double and the single quote are replaced by entities.
\<close>

definition escape_char :: "char \<Rightarrow> string" where
  "escape_char c =
    (if c = CHR ''&'' then ''&amp;''
     else if c = CHR ''<'' then ''&lt;''
     else if c = CHR ''>'' then ''&gt;''
     else if c = CHR 0x22 then ''&quot;''
     else if c = CHR 0x27 then ''&#x27;''
     else [c])"

definition html_escape :: "string \<Rightarrow> string" where
  "html_escape text = concat (map escape_char text)"

text \<open>
  The three patterns of \<open>inline_format\<close> are \<open>n\<close> stars, a group \<open>([^*]+)\<close> and \<open>n\<close>
  stars again, for \<open>n\<close> = 3, 2, 1. \<open>match_marker n s\<close> is the match of that pattern at
  the start of \<open>s\<close>: the group can only be the whole run of non-star characters after the
  opening stars (a shorter one would be followed by a non-star), it must be non-empty,
  and the closing stars must follow. The result is the group and the text after the
  match.
\<close>

definition stars :: "nat \<Rightarrow> string" where
  "stars n = replicate n (CHR ''*'')"

definition match_marker :: "nat \<Rightarrow> string \<Rightarrow> (string \<times> string) option" where
  "match_marker n s =
    (if prefix (stars n) s then
       (let s1 = drop n s;
            body = takeWhile (\<lambda>c. c \<noteq> CHR ''*'') s1;
            s2 = dropWhile (\<lambda>c. c \<noteq> CHR ''*'') s1
        in if body \<noteq> [] \<and> prefix (stars n) s2 then Some (body, drop n s2) else None)
     else None)"

text \<open>
  \<open>re.sub\<close> with such a pattern and the template \<open>opn \1 cls\<close>: the leftmost match is
  replaced and the scan resumes after it; a character where no match starts is copied.
\<close>

function sub_marker :: "nat \<Rightarrow> string \<Rightarrow> string \<Rightarrow> string \<Rightarrow> string" where
  "sub_marker n opn cls [] = []"
| "sub_marker n opn cls (c # cs) =
     (case match_marker n (c # cs) of
        Some (body, rest) \<Rightarrow> opn @ body @ cls @ sub_marker n opn cls rest
      | None \<Rightarrow> c # sub_marker n opn cls cs)"
  by pat_completeness auto
termination
proof (relation "measure (\<lambda>(n, opn, cls, s). length s)")
  fix n :: nat and opn cls :: string and c :: char and cs :: string
    and x2 :: "string \<times> string" and body rest :: string
  assume m: "match_marker n (c # cs) = Some x2" and x2: "(body, rest) = x2"
  have r: "rest = drop n (dropWhile (\<lambda>c. c \<noteq> CHR ''*'') (drop n (c # cs)))"
    and b: "takeWhile (\<lambda>c. c \<noteq> CHR ''*'') (drop n (c # cs)) \<noteq> []"
    using m x2 by (auto simp: match_marker_def Let_def split: if_splits)
  have "length (takeWhile (\<lambda>c. c \<noteq> CHR ''*'') (drop n (c # cs)))
        + length (dropWhile (\<lambda>c. c \<noteq> CHR ''*'') (drop n (c # cs)))
      = length (drop n (c # cs))"
    by (simp only: length_append [symmetric] takeWhile_dropWhile_id)
  with b have "length (dropWhile (\<lambda>c. c \<noteq> CHR ''*'') (drop n (c # cs))) < length (c # cs)"
    by (cases "takeWhile (\<lambda>c. c \<noteq> CHR ''*'') (drop n (c # cs))") auto
  with r have "length rest < length (c # cs)"
    by simp
  then show "((n, opn, cls, rest), (n, opn, cls, c # cs)) \<in> measure (\<lambda>(n, opn, cls, s). length s)"
    by simp
qed simp_all

definition inline_format :: "string \<Rightarrow> string" where
  "inline_format text =
    (let safe = html_escape text;
         safe = sub_marker 3 ''<strong><em>'' ''</em></strong>'' safe;
         safe = sub_marker 2 ''<strong>'' ''</strong>'' safe;
         safe = sub_marker 1 ''<em>'' ''</em>'' safe
     in safe)"

text \<open>
  The body of the loop of \<open>block_to_html\<close> on one line: \<open>None\<close> is the \<open>continue\<close> of a
  blank line, otherwise the element appended to \<open>html_parts\<close>.
\<close>

definition h2_open :: string where
  "h2_open = ''<h2 class='' @ [CHR 0x22] @ ''chapter-title'' @ [CHR 0x22] @ ''>''"

definition html_line :: "string \<Rightarrow> string option" where
  "html_line line =
    (let stripped = strip line in
     if stripped = [] then None
     else if startswith ''# '' stripped then
       (let title_raw = strip (drop 2 stripped);
            title = inline_format title_raw
        in Some (h2_open @ title @ ''</h2>''))
     else
       (let formatted = inline_format stripped
        in Some (''<p>'' @ formatted @ ''</p>'')))"

definition html_parts :: "string \<Rightarrow> string list" where
  "html_parts block_text = List.map_filter html_line (split_py nl block_text)"

definition block_to_html :: "string \<Rightarrow> string" where
  "block_to_html block_text = join_py nl (html_parts block_text)"

section \<open>build_codex_refs.py: sorting and deduplicating the occurrences\<close>

text \<open>
  An occurrence record \<open>{"bookId", "bookTitle", "page"}\<close>. The page number is the
  \<open>int\<close> of a run of digits.
\<close>

record occurrence =
  bookId :: string
  bookTitle :: string
  page :: int

text \<open>
  \<open>str.lower\<close> on code points below 256: the ASCII capitals and the Latin-1 capitals
  0xC0..0xDE (without the multiplication sign 0xD7) move up by 0x20.
\<close>

definition lower_char :: "char \<Rightarrow> char" where
  "lower_char c =
    (let n = (of_char c :: nat) in
     if (65 \<le> n \<and> n \<le> 90) \<or> (192 \<le> n \<and> n \<le> 222 \<and> n \<noteq> 215)
     then char_of (n + 32) else c)"

definition lower :: "string \<Rightarrow> string" where
  "lower s = map lower_char s"

text \<open>
  The key of \<open>lst.sort(key=lambda r: (r["bookTitle"].lower(), r["page"]))\<close>: tuples
  compare lexicographically, strings by code points. \<open>list.sort\<close> is stable, as
  \<open>sort_key\<close> is.
\<close>

definition sort_key_of :: "occurrence \<Rightarrow> string \<times> int" where
  "sort_key_of r = (lower (bookTitle r), page r)"

definition dedupe_key_of :: "occurrence \<Rightarrow> string \<times> int" where
  "dedupe_key_of r = (bookId r, page r)"

text \<open>The loop \<open>for r in lst\<close> with its set \<open>seen\<close>; the result is \<open>deduped\<close>.\<close>

fun dedupe :: "(string \<times> int) set \<Rightarrow> occurrence list \<Rightarrow> occurrence list" where
  "dedupe seen [] = []"
| "dedupe seen (r # rs) =
     (if dedupe_key_of r \<in> seen then dedupe seen rs
      else r # dedupe (insert (dedupe_key_of r) seen) rs)"

text \<open>
  The loop \<open>for cid, lst in refs.items()\<close>: every list of the dictionary is sorted,
  deduplicated and stored back under its key.
\<close>

definition finalize_refs :: "(string \<rightharpoonup> occurrence list) \<Rightarrow> (string \<rightharpoonup> occurrence list)" where
  "finalize_refs refs =
    (\<lambda>cid. case refs cid of
        None \<Rightarrow> None
      | Some lst \<Rightarrow> Some (dedupe {} (sort_key sort_key_of lst)))"

section \<open>Variants, invariants and well-formedness predicates\<close>

text \<open>The variant of the repair loop: the number of pages after the cursor.\<close>

definition remaining :: "nat \<times> string list \<Rightarrow> nat" where
  "remaining s = length (snd s) - 1 - fst s"

text \<open>
  \<open>has_nn\<close>: the string contains a blank-line separator. A paragraph as the splitter
  emits it (\<open>para_ok\<close>) is not empty, does not end in whitespace and contains no
  separator; a page (\<open>page_ok\<close>) is not empty and does not end in whitespace.
\<close>

fun has_nn :: "string \<Rightarrow> bool" where
  "has_nn (a # b # cs) = ((a = CHR 0x0A \<and> b = CHR 0x0A) \<or> has_nn (b # cs))"
| "has_nn _ = False"

definition para_ok :: "string \<Rightarrow> bool" where
  "para_ok p = (p \<noteq> [] \<and> \<not> isspace (last p) \<and> \<not> has_nn p)"

definition page_ok :: "string \<Rightarrow> bool" where
  "page_ok p = (p \<noteq> [] \<and> \<not> isspace (last p))"

text \<open>
  The invariant of the packing loop after the paragraphs \<open>seen\<close>: completed pages are
  well formed, pending paragraphs are well formed, and the blocks of the completed pages
  followed by the pending paragraphs are the paragraphs seen, markers left out.
\<close>

definition pack_inv :: "packer \<Rightarrow> string list \<Rightarrow> bool" where
  "pack_inv st seen \<longleftrightarrow>
     (\<forall>p \<in> set (pages st). page_ok p)
   \<and> (\<forall>p \<in> set (current st). para_ok p)
   \<and> concat (map (split_py nlnl) (pages st)) @ current st = filter (\<lambda>p. p \<noteq> PAGE_BREAK) seen"

text \<open>
  The invariant of the splitter's loop: the paragraphs emitted so far are well formed,
  and the pending lines are not blank and hold no newline.
\<close>

definition parse_inv :: "string list \<times> string list \<Rightarrow> bool" where
  "parse_inv s \<longleftrightarrow>
     (\<forall>p \<in> set (fst s). para_ok p)
   \<and> (\<forall>l \<in> set (snd s). strip l \<noteq> [] \<and> CHR 0x0A \<notin> set l)"

text \<open>
  The invariant of the packing loop on the page under construction: \<open>current_len\<close> is
  the sum of the pending paragraphs' lengths, and it exceeds the target only when a
  single paragraph is pending.
\<close>

definition within_budget :: "packer \<Rightarrow> bool" where
  "within_budget st \<longleftrightarrow>
     current_len st = sum_list (map length (current st))
   \<and> (TARGET_CHARS_PER_PAGE < current_len st \<longrightarrow> length (current st) = 1)"

text \<open>A text without the marker character.\<close>

definition starfree :: "string \<Rightarrow> bool" where
  "starfree s = (CHR ''*'' \<notin> set s)"

section \<open>The packer's step on a heading and on a forced break\<close>

lemma heading_not_break: "is_heading para \<Longrightarrow> para \<noteq> PAGE_BREAK"
  by (auto simp: is_heading_def PAGE_BREAK_def startswith_def lstrip_def isspace_def)

text \<open>
  Claim C2. When the packer reaches a heading while content is pending: if a completed
  page exists and the accumulated length is below 450, the pending content is joined
  with the blank-line separator onto the last completed page, which is replaced in
  place (the page count does not grow); if no completed page exists, the pending content
  becomes a page of its own. In both cases the new page under construction is the
  heading alone, with the heading's length.
\<close>

theorem heading_orphan_merge:
  assumes "is_heading para" and "current st \<noteq> []"
  shows "(pages st \<noteq> [] \<and> current_len st < 450 \<longrightarrow>
            pack_step st para =
              \<lparr> pages = butlast (pages st) @ [last (pages st) @ nlnl @ join_py nlnl (current st)],
                current = [para], current_len = length para \<rparr>)
       \<and> (pages st = [] \<longrightarrow>
            pack_step st para =
              \<lparr> pages = [join_py nlnl (current st)],
                current = [para], current_len = length para \<rparr>)"
  using assms heading_not_break [OF assms(1)]
  by (simp add: pack_step_def MIN_CHARS_PER_PAGE_def)

theorem heading_orphan_merge_witness:
  "is_heading ''# Two''
   \<and> pack_step \<lparr> pages = [''# One'' @ nlnl @ ''A long body.''], current = [''Short.''],
                  current_len = 6 \<rparr> ''# Two''
       = \<lparr> pages = [''# One'' @ nlnl @ ''A long body.'' @ nlnl @ ''Short.''],
           current = [''# Two''], current_len = 5 \<rparr>
   \<and> pack_step \<lparr> pages = [], current = [''# One'', ''Short.''], current_len = 11 \<rparr> ''# Two''
       = \<lparr> pages = [''# One'' @ nlnl @ ''Short.''], current = [''# Two''], current_len = 5 \<rparr>"
proof -
  have h: "is_heading ''# Two''"
    by (simp add: is_heading_def startswith_def lstrip_def isspace_def)
  show ?thesis
    using h
      heading_orphan_merge [OF h, of "\<lparr> pages = [''# One'' @ nlnl @ ''A long body.''],
        current = [''Short.''], current_len = 6 \<rparr>"]
      heading_orphan_merge [OF h, of "\<lparr> pages = [], current = [''# One'', ''Short.''],
        current_len = 11 \<rparr>"]
    by simp
qed

lemma parse_only_sentinels:
  "\<forall>l \<in> set ls. strip (rstrip_cr l) = PAGE_SENTINEL \<Longrightarrow>
   foldl parse_step (ps, []) ls = (ps @ replicate (length ls) PAGE_BREAK, [])"
proof (induction ls arbitrary: ps)
  case Nil
  then show ?case by simp
next
  case (Cons l ls)
  have "parse_step (ps, []) l = (ps @ [PAGE_BREAK], [])"
    using Cons.prems by (simp add: parse_step_def flush_def)
  then show ?case
    using Cons.IH [of "ps @ [PAGE_BREAK]"] Cons.prems
    by (simp add: replicate_app_Cons_same)
qed

lemma pack_only_breaks:
  "current st = [] \<Longrightarrow> foldl pack_step st (replicate n PAGE_BREAK) = st"
  by (induction n) (simp_all add: pack_step_def)

lemma repair_loop_Nil: "repair_loop (i, []) = []"
  by (simp add: repair_loop.simps repair_cond_def)

text \<open>
  Claim C6. On a forced-break marker the packer appends the pending content as a page
  whatever its accumulated length (no comparison with a size is made); with nothing
  pending the marker leaves the state as it is; and a manuscript all of whose lines are
  sentinel lines gives no page.
\<close>

theorem forced_break_unconditional:
  "(current st \<noteq> [] \<longrightarrow>
      pack_step st PAGE_BREAK =
        \<lparr> pages = pages st @ [join_py nlnl (current st)], current = [], current_len = 0 \<rparr>)
   \<and> (current st = [] \<longrightarrow> pack_step st PAGE_BREAK = st)
   \<and> ((\<forall>l \<in> set (split_py nl text). strip (rstrip_cr l) = PAGE_SENTINEL) \<longrightarrow>
        build_pages_from_paragraphs (parse_paragraphs text) = [])"
proof (intro conjI impI)
  assume "current st \<noteq> []"
  then show "pack_step st PAGE_BREAK =
        \<lparr> pages = pages st @ [join_py nlnl (current st)], current = [], current_len = 0 \<rparr>"
    by (simp add: pack_step_def)
next
  assume "current st = []"
  then show "pack_step st PAGE_BREAK = st"
    by (simp add: pack_step_def)
next
  assume a: "\<forall>l \<in> set (split_py nl text). strip (rstrip_cr l) = PAGE_SENTINEL"
  have "parse_paragraphs text = replicate (length (split_py nl text)) PAGE_BREAK"
    using parse_only_sentinels [OF a, of "[]"] by (simp add: parse_paragraphs_def flush_def)
  then show "build_pages_from_paragraphs (parse_paragraphs text) = []"
    by (simp add: build_pages_from_paragraphs_def pack_pages_def pack_only_breaks
        packer_init_def repair_loop_Nil)
qed

theorem forced_break_unconditional_witness:
  "pack_step \<lparr> pages = [''p''], current = [''tiny''], current_len = 4 \<rparr> PAGE_BREAK
     = \<lparr> pages = [''p'', ''tiny''], current = [], current_len = 0 \<rparr>
   \<and> pack_step \<lparr> pages = [''p''], current = [], current_len = 0 \<rparr> PAGE_BREAK
     = \<lparr> pages = [''p''], current = [], current_len = 0 \<rparr>
   \<and> split_py nl ''===PAGE===\<newline>===PAGE==='' = [''===PAGE==='', ''===PAGE==='']
   \<and> build_pages_from_paragraphs (parse_paragraphs ''===PAGE===\<newline>===PAGE==='') = []"
  using forced_break_unconditional [of "\<lparr> pages = [''p''], current = [''tiny''], current_len = 4 \<rparr>"
      "''===PAGE===\<newline>===PAGE===''"]
    forced_break_unconditional [of "\<lparr> pages = [''p''], current = [], current_len = 0 \<rparr>" "[]"]
  by (simp add: strip_def rstrip_cr_def isspace_def PAGE_SENTINEL_def)

section \<open>The repair loop\<close>

lemma repair_cond_iff: "repair_cond (i, pgs) \<longleftrightarrow> Suc i < length pgs"
  by (auto simp: repair_cond_def)

lemma merge_next_eq:
  "Suc i < length pgs \<Longrightarrow>
   merge_next i pgs = take i pgs @ [pgs ! i @ nlnl @ pgs ! Suc i] @ drop (i + 2) pgs"
  by (simp add: merge_next_def Let_def take_Suc_conv_app_nth)

lemma length_merge_next: "Suc i < length pgs \<Longrightarrow> length (merge_next i pgs) = length pgs - 1"
  by (simp add: merge_next_eq)

lemma merge_next_before: "Suc i < length pgs \<Longrightarrow> j < i \<Longrightarrow> merge_next i pgs ! j = pgs ! j"
  by (simp add: merge_next_eq nth_append)

lemma remaining_body: "repair_cond s \<Longrightarrow> Suc (remaining (repair_body s)) = remaining s"
  by (cases s) (auto simp: repair_cond_iff repair_body_def remaining_def length_merge_next)

lemma remaining_exit: "\<not> repair_cond s \<Longrightarrow> remaining s = 0"
  by (cases s) (auto simp: repair_cond_iff remaining_def)

lemma repair_loop_funpow:
  "\<not> repair_cond ((repair_body ^^ remaining s) s)
   \<and> (\<forall>m < remaining s. repair_cond ((repair_body ^^ m) s))
   \<and> repair_loop s = snd ((repair_body ^^ remaining s) s)"
proof (induction s rule: repair_loop.induct)
  case (1 s)
  show ?case
  proof (cases "repair_cond s")
    case False
    then show ?thesis
      by (simp add: remaining_exit repair_loop.simps)
  next
    case True
    let ?n = "remaining (repair_body s)"
    have n: "remaining s = Suc ?n"
      using remaining_body [OF True] by simp
    have ih: "\<not> repair_cond ((repair_body ^^ ?n) (repair_body s))"
      "\<forall>m < ?n. repair_cond ((repair_body ^^ m) (repair_body s))"
      "repair_loop (repair_body s) = snd ((repair_body ^^ ?n) (repair_body s))"
      using 1 [OF True] by simp_all
    have "\<forall>m < Suc ?n. repair_cond ((repair_body ^^ m) s)"
    proof (intro allI impI)
      fix m assume "m < Suc ?n"
      then show "repair_cond ((repair_body ^^ m) s)"
        using True ih(2) by (cases m) (simp_all add: funpow_swap1)
    qed
    moreover have "repair_loop s = repair_loop (repair_body s)"
      using True by (simp add: repair_loop.simps)
    ultimately show ?thesis
      using ih(1,3) n by (simp add: funpow_swap1)
  qed
qed

lemma repair_loop_inner:
  "(\<forall>j < fst s. \<not> heading_only (snd s ! j)) \<Longrightarrow> Suc j < length (repair_loop s) \<Longrightarrow>
   \<not> heading_only (repair_loop s ! j)"
proof (induction s rule: repair_loop.induct)
  case (1 s)
  obtain i pgs where s: "s = (i, pgs)" by (cases s)
  show ?case
  proof (cases "repair_cond s")
    case False
    then have "repair_loop s = pgs" "\<not> Suc i < length pgs"
      using s by (simp_all add: repair_loop.simps repair_cond_iff)
    with 1(2,3) s show ?thesis by simp
  next
    case True
    then have lt: "Suc i < length pgs"
      using s by (simp add: repair_cond_iff)
    have eq: "repair_loop s = repair_loop (repair_body s)"
      using True by (simp add: repair_loop.simps)
    have "\<forall>j < fst (repair_body s). \<not> heading_only (snd (repair_body s) ! j)"
    proof (cases "heading_only (pgs ! i)")
      case True
      then show ?thesis
        using 1(2) s lt by (simp add: repair_body_def merge_next_before)
    next
      case False
      then show ?thesis
        using 1(2) s by (auto simp: repair_body_def less_Suc_eq)
    qed
    then show ?thesis
      using 1(1) [OF True] 1(3) eq by simp
  qed
qed

lemma join_py_Cons: "ys \<noteq> [] \<Longrightarrow> join_py sep (x # ys) = x @ sep @ join_py sep ys"
  by (cases ys) simp_all

lemma join_py_append:
  "xs \<noteq> [] \<Longrightarrow> ys \<noteq> [] \<Longrightarrow> join_py sep (xs @ ys) = join_py sep xs @ sep @ join_py sep ys"
proof (induction xs)
  case Nil
  then show ?case by simp
next
  case (Cons a xs)
  then show ?case
    by (cases "xs = []") (simp_all add: join_py_Cons)
qed

lemma join_merge_next:
  assumes "Suc i < length pgs"
  shows "join_py nlnl (merge_next i pgs) = join_py nlnl pgs"
proof -
  let ?a = "pgs ! i" and ?b = "pgs ! Suc i"
  have pgs: "pgs = take i pgs @ [?a, ?b] @ drop (i + 2) pgs"
    using assms by (metis Cons_nth_drop_Suc Suc_lessD add_2_eq_Suc' append.simps(1,2) id_take_nth_drop)
  have m: "merge_next i pgs = take i pgs @ [?a @ nlnl @ ?b] @ drop (i + 2) pgs"
    using assms by (rule merge_next_eq)
  have mid: "join_py nlnl ([?a @ nlnl @ ?b] @ r) = join_py nlnl ([?a, ?b] @ r)" for r
    by (cases r) simp_all
  have "join_py nlnl (p @ [?a @ nlnl @ ?b] @ r) = join_py nlnl (p @ [?a, ?b] @ r)" for p r
    using mid [of r] by (cases "p = []") (simp_all only: append_Nil join_py_append append_is_Nil_conv not_Cons_self2 list.simps simp_thms)
  then show ?thesis
    using pgs m by metis
qed

lemma join_repair_loop: "join_py nlnl (repair_loop s) = join_py nlnl (snd s)"
proof (induction s rule: repair_loop.induct)
  case (1 s)
  obtain i pgs where s: "s = (i, pgs)" by (cases s)
  show ?case
  proof (cases "repair_cond s")
    case False
    then show ?thesis by (simp add: repair_loop.simps)
  next
    case True
    then have "join_py nlnl (snd (repair_body s)) = join_py nlnl (snd s)"
      using s by (simp add: repair_body_def repair_cond_iff join_merge_next)
    then show ?thesis
      using 1 [OF True] True by (simp add: repair_loop.simps)
  qed
qed

lemmas string_eval = isspace_def lstrip_def strip_def rstrip_cr_def startswith_def
lemmas packer_eval = pack_pages_def pack_step_def packer_init_def PAGE_BREAK_def is_heading_def
  MIN_CHARS_PER_PAGE_def TARGET_CHARS_PER_PAGE_def
lemmas repair_eval = build_pages_from_paragraphs_def repair_loop.simps repair_cond_def
  repair_body_def merge_next_def heading_only_def

text \<open>
  Claim C7, as amended. The repair loop terminates on every page sequence: started at
  cursor 0 it leaves the loop after exactly (page count - 1) iterations of its body
  (none for the empty sequence), which is at most the initial page count. Each iteration
  lowers the number of pages after the cursor by one, by a merge (the page count shrinks)
  or by an advance (the page count stays); the page count never grows.
\<close>

theorem repair_terminates_bounded:
  "\<not> repair_cond ((repair_body ^^ (length pgs - 1)) (0, pgs))
   \<and> (\<forall>m < length pgs - 1. repair_cond ((repair_body ^^ m) (0, pgs)))
   \<and> repair_loop (0, pgs) = snd ((repair_body ^^ (length pgs - 1)) (0, pgs))
   \<and> (\<forall>s. repair_cond s \<longrightarrow>
          Suc (remaining (repair_body s)) = remaining s
          \<and> length (snd (repair_body s)) \<le> length (snd s))"
proof -
  have "length (snd (repair_body s)) \<le> length (snd s)" if "repair_cond s" for s
    using that by (cases s) (simp add: repair_body_def repair_cond_iff length_merge_next)
  then show ?thesis
    using repair_loop_funpow [of "(0, pgs)"] remaining_body
    by (simp add: remaining_def)
qed

theorem repair_terminates_bounded_witness:
  "repair_cond (0, [''# A'', ''# B'', ''body''])
   \<and> repair_body (0, [''# A'', ''# B'', ''body'']) = (0, [''# A'' @ nlnl @ ''# B'', ''body''])
   \<and> repair_cond (0, [''# A'' @ nlnl @ ''# B'', ''body''])
   \<and> repair_body (0, [''# A'' @ nlnl @ ''# B'', ''body'']) = (1, [''# A'' @ nlnl @ ''# B'', ''body''])
   \<and> \<not> repair_cond (1, [''# A'' @ nlnl @ ''# B'', ''body''])
   \<and> repair_loop (0, [''# A'', ''# B'', ''body'']) = [''# A'' @ nlnl @ ''# B'', ''body'']
   \<and> Suc (remaining (repair_body (0, [''# A'', ''# B'', ''body'']))) = remaining (0, [''# A'', ''# B'', ''body''])"
proof -
  let ?P = "[''# A'', ''# B'', ''body'']"
  have b1: "repair_body (0, ?P) = (0, [''# A'' @ nlnl @ ''# B'', ''body''])"
    by (simp add: repair_body_def merge_next_def heading_only_def string_eval)
  have b2: "repair_body (0, [''# A'' @ nlnl @ ''# B'', ''body''])
      = (1, [''# A'' @ nlnl @ ''# B'', ''body''])"
    by (simp add: repair_body_def merge_next_def heading_only_def string_eval)
  have two: "(repair_body ^^ 2) (0, ?P) = (1, [''# A'' @ nlnl @ ''# B'', ''body''])"
    using b1 b2 by (simp add: numeral_2_eq_2)
  note t = repair_terminates_bounded [of ?P]
  have n: "length ?P - 1 = 2" by simp
  from t have "\<not> repair_cond ((repair_body ^^ 2) (0, ?P))"
    and all: "\<forall>m < 2. repair_cond ((repair_body ^^ m) (0, ?P))"
    and "repair_loop (0, ?P) = snd ((repair_body ^^ 2) (0, ?P))"
    and "\<forall>s. repair_cond s \<longrightarrow> Suc (remaining (repair_body s)) = remaining s
          \<and> length (snd (repair_body s)) \<le> length (snd s)"
    unfolding n by blast+
  moreover have "repair_cond ((repair_body ^^ 0) (0, ?P))"
    and "repair_cond ((repair_body ^^ 1) (0, ?P))"
    using all [rule_format, of 0] all [rule_format, of 1] by simp_all
  ultimately show ?thesis
    using b1 b2 two by (auto simp: remaining_def)
qed

text \<open>
  Claim C7 as stated fails: an iteration on a page that is not heading-only advances the
  cursor and leaves the page count as it was.
\<close>

theorem repair_iteration_keeps_count_counterexample:
  "repair_cond (0, [''a'', ''b''])
   \<and> \<not> length (snd (repair_body (0, [''a'', ''b'']))) < length [''a'', ''b'']"
  by (simp add: repair_cond_def repair_body_def heading_only_def string_eval)

section \<open>The reference index\<close>

lemma set_dedupe_subset: "set (dedupe seen rs) \<subseteq> set rs"
  by (induction rs arbitrary: seen) auto

lemma sorted_dedupe: "sorted (map f rs) \<Longrightarrow> sorted (map f (dedupe seen rs))"
proof (induction rs arbitrary: seen)
  case Nil
  then show ?case by simp
next
  case (Cons r rs)
  then show ?case
    using set_dedupe_subset [of "insert (dedupe_key_of r) seen" rs] by auto
qed

lemma dedupe_fresh: "r \<in> set (dedupe seen rs) \<Longrightarrow> dedupe_key_of r \<notin> seen"
  by (induction rs arbitrary: seen) (auto split: if_splits)

lemma distinct_dedupe: "distinct (map dedupe_key_of (dedupe seen rs))"
  by (induction rs arbitrary: seen) (auto dest: dedupe_fresh)

lemma dedupe_keys: "dedupe_key_of ` set (dedupe seen rs) = dedupe_key_of ` set rs - seen"
  by (induction rs arbitrary: seen) auto

text \<open>
  Claim C10. For every codex identifier of the finished index, the occurrence list is
  sorted by the pair of the lowercased book title and the page number, and no two of its
  records have the same pair of book identifier and page; every record is one of the
  scanned ones, and every scanned pair of book identifier and page keeps one record.
\<close>

theorem occurrences_sorted_deduped:
  assumes "finalize_refs refs cid = Some lst"
  shows "sorted (map sort_key_of lst)
       \<and> distinct (map dedupe_key_of lst)
       \<and> (\<exists>lst0. refs cid = Some lst0 \<and> set lst \<subseteq> set lst0
             \<and> dedupe_key_of ` set lst = dedupe_key_of ` set lst0)"
proof -
  from assms obtain lst0 where r: "refs cid = Some lst0"
    and l: "lst = dedupe {} (sort_key sort_key_of lst0)"
    by (auto simp: finalize_refs_def split: option.splits)
  have "sorted (map sort_key_of lst)"
    unfolding l by (intro sorted_dedupe sorted_sort_key)
  moreover have "distinct (map dedupe_key_of lst)"
    unfolding l by (rule distinct_dedupe)
  moreover have "set lst \<subseteq> set lst0"
    unfolding l using set_dedupe_subset [of "{}" "sort_key sort_key_of lst0"] by simp
  moreover have "dedupe_key_of ` set lst = dedupe_key_of ` set lst0"
    unfolding l by (simp add: dedupe_keys)
  ultimately show ?thesis
    using r by simp
qed

lemma lower_examples: "lower ''Zed'' = ''zed''" "lower ''alpha'' = ''alpha''"
  by code_simp+

theorem occurrences_sorted_deduped_witness:
  "finalize_refs [''hero'' \<mapsto>
       [\<lparr> bookId = ''b1'', bookTitle = ''Zed'', page = 2 \<rparr>,
        \<lparr> bookId = ''b2'', bookTitle = ''alpha'', page = 1 \<rparr>,
        \<lparr> bookId = ''b1'', bookTitle = ''Zed'', page = 2 \<rparr>,
        \<lparr> bookId = ''b1'', bookTitle = ''Zed'', page = 1 \<rparr>]] ''hero''
     = Some [\<lparr> bookId = ''b2'', bookTitle = ''alpha'', page = 1 \<rparr>,
             \<lparr> bookId = ''b1'', bookTitle = ''Zed'', page = 1 \<rparr>,
             \<lparr> bookId = ''b1'', bookTitle = ''Zed'', page = 2 \<rparr>]
   \<and> sorted (map sort_key_of
        [\<lparr> bookId = ''b2'', bookTitle = ''alpha'', page = 1 \<rparr>,
         \<lparr> bookId = ''b1'', bookTitle = ''Zed'', page = 1 \<rparr>,
         \<lparr> bookId = ''b1'', bookTitle = ''Zed'', page = 2 \<rparr>])
   \<and> distinct (map dedupe_key_of
        [\<lparr> bookId = ''b2'', bookTitle = ''alpha'', page = 1 \<rparr>,
         \<lparr> bookId = ''b1'', bookTitle = ''Zed'', page = 1 \<rparr>,
         \<lparr> bookId = ''b1'', bookTitle = ''Zed'', page = 2 \<rparr>])"
proof -
  let ?refs = "[''hero'' \<mapsto>
       [\<lparr> bookId = ''b1'', bookTitle = ''Zed'', page = 2 \<rparr>,
        \<lparr> bookId = ''b2'', bookTitle = ''alpha'', page = 1 \<rparr>,
        \<lparr> bookId = ''b1'', bookTitle = ''Zed'', page = 2 \<rparr>,
        \<lparr> bookId = ''b1'', bookTitle = ''Zed'', page = 1 \<rparr>]]"
  have f: "finalize_refs ?refs ''hero''
     = Some [\<lparr> bookId = ''b2'', bookTitle = ''alpha'', page = 1 \<rparr>,
             \<lparr> bookId = ''b1'', bookTitle = ''Zed'', page = 1 \<rparr>,
             \<lparr> bookId = ''b1'', bookTitle = ''Zed'', page = 2 \<rparr>]"
    by (simp add: finalize_refs_def sort_key_of_def lower_examples dedupe_key_of_def)
  from occurrences_sorted_deduped [OF f] f show ?thesis
    by blast
qed

section \<open>The inline renderer\<close>

lemma starfree_simps [simp]:
  "starfree []" "starfree (c # cs) = (c \<noteq> CHR ''*'' \<and> starfree cs)"
  "starfree (xs @ ys) = (starfree xs \<and> starfree ys)"
  by (auto simp: starfree_def)

lemma stars_Suc: "stars (Suc n) = CHR ''*'' # stars n"
  by (simp add: stars_def)

lemma match_marker_no_prefix: "\<not> prefix (stars n) s \<Longrightarrow> match_marker n s = None"
  by (simp add: match_marker_def)

lemma sub_marker_copy:
  "match_marker n (c # cs) = None \<Longrightarrow> sub_marker n opn cls (c # cs) = c # sub_marker n opn cls cs"
  by simp

lemmas sub_marker_Cons = sub_marker.simps(2)

declare sub_marker.simps(2) [simp del]

lemma sub_marker_nonstar:
  "c \<noteq> CHR ''*'' \<Longrightarrow> 0 < n \<Longrightarrow> sub_marker n opn cls (c # cs) = c # sub_marker n opn cls cs"
  by (cases n) (simp_all add: match_marker_def stars_Suc sub_marker_Cons)

lemma sub_marker_starfree_append:
  "starfree x \<Longrightarrow> 0 < n \<Longrightarrow> sub_marker n opn cls (x @ s) = x @ sub_marker n opn cls s"
  by (induction x) (simp_all add: sub_marker_nonstar)

lemma sub_marker_starfree: "starfree x \<Longrightarrow> 0 < n \<Longrightarrow> sub_marker n opn cls x = x"
  using sub_marker_starfree_append [of x n opn cls "[]"] by simp

lemma takeWhile_to_star:
  "starfree r \<Longrightarrow> takeWhile (\<lambda>c. c \<noteq> CHR ''*'') (r @ CHR ''*'' # x) = r"
  by (induction r) simp_all

lemma dropWhile_to_star:
  "starfree r \<Longrightarrow> dropWhile (\<lambda>c. c \<noteq> CHR ''*'') (r @ CHR ''*'' # x) = CHR ''*'' # x"
  by (induction r) simp_all

lemma match_marker_span:
  assumes "starfree r" "r \<noteq> []" "0 < n"
  shows "match_marker n (stars n @ r @ stars n @ rest) = Some (r, rest)"
proof -
  have t: "takeWhile (\<lambda>c. c \<noteq> CHR ''*'') (r @ stars n @ rest) = r"
    using assms by (cases n) (auto simp: stars_Suc takeWhile_to_star)
  have d: "dropWhile (\<lambda>c. c \<noteq> CHR ''*'') (r @ stars n @ rest) = stars n @ rest"
    using assms by (cases n) (auto simp: stars_Suc dropWhile_to_star)
  have l: "length (stars n) = n" by (simp add: stars_def)
  show ?thesis
    using assms(2) by (simp add: match_marker_def Let_def l t d)
qed

lemma sub_marker_span:
  assumes "starfree r" "r \<noteq> []" "0 < n"
  shows "sub_marker n opn cls (stars n @ r @ stars n @ rest) = opn @ r @ cls @ sub_marker n opn cls rest"
proof -
  obtain k where n: "n = Suc k" using assms(3) by (cases n) auto
  have "stars n @ r @ stars n @ rest = CHR ''*'' # (stars k @ r @ stars n @ rest)"
    by (simp add: n stars_Suc)
  then show ?thesis
    using match_marker_span [OF assms, of rest] by (simp add: sub_marker_Cons del: append_assoc)
qed

lemma starfree_escape: "starfree s \<Longrightarrow> starfree (html_escape s)"
  by (induction s) (auto simp: html_escape_def escape_char_def)

lemma html_escape_append: "html_escape (a @ b) = html_escape a @ html_escape b"
  by (simp add: html_escape_def)

lemma html_escape_stars: "html_escape (stars n) = stars n"
  by (induction n) (simp_all add: stars_Suc html_escape_def escape_char_def, simp add: stars_def)

lemma html_escape_nonempty: "s \<noteq> [] \<Longrightarrow> html_escape s \<noteq> []"
  by (cases s) (auto simp: html_escape_def escape_char_def)

lemma prefix_stars_longer:
  "k < n \<Longrightarrow> prefix (stars n) (stars k @ x) \<Longrightarrow> x \<noteq> [] \<and> hd x = CHR ''*''"
proof (induction k arbitrary: n)
  case 0
  then show ?case by (cases n; cases x) (auto simp: stars_Suc stars_def)
next
  case (Suc k)
  then obtain n' where "n = Suc n'" by (cases n) auto
  with Suc show ?case by (simp add: stars_Suc)
qed

lemma sub_marker_short_run:
  "m < n \<Longrightarrow> x = [] \<or> hd x \<noteq> CHR ''*'' \<Longrightarrow>
   sub_marker n opn cls (stars m @ x) = stars m @ sub_marker n opn cls x"
proof (induction m)
  case 0
  then show ?case by (simp add: stars_def)
next
  case (Suc m)
  have "\<not> prefix (stars n) (stars (Suc m) @ x)"
    using prefix_stars_longer [of "Suc m" n x] Suc.prems by auto
  then have "match_marker n (CHR ''*'' # stars m @ x) = None"
    by (simp add: match_marker_no_prefix stars_Suc)
  then show ?case
    using Suc by (simp add: stars_Suc sub_marker_Cons)
qed

lemma sub_marker_other:
  assumes "m < n" "starfree pre" "starfree r" "r \<noteq> []" "starfree post"
  shows "sub_marker n opn cls (pre @ stars m @ r @ stars m @ post) = pre @ stars m @ r @ stars m @ post"
proof -
  have n: "0 < n" using assms(1) by simp
  have 1: "sub_marker n opn cls (stars m @ post) = stars m @ post"
    using assms(1,5) sub_marker_short_run [of m n post opn cls]
    by (cases post) (simp_all add: sub_marker_starfree n)
  have 2: "sub_marker n opn cls (r @ stars m @ post) = r @ stars m @ post"
    using assms(3) by (simp add: sub_marker_starfree_append n 1)
  have "hd (r @ stars m @ post) \<noteq> CHR ''*''"
    using assms(3,4) by (cases r) simp_all
  then have 3: "sub_marker n opn cls (stars m @ r @ stars m @ post) = stars m @ r @ stars m @ post"
    using assms(1) sub_marker_short_run [of m n "r @ stars m @ post" opn cls]
    by (simp add: 2)
  show ?thesis
    using assms(2) by (simp add: sub_marker_starfree_append n 3)
qed

lemma sub_marker_this:
  assumes "0 < n" "starfree pre" "starfree r" "r \<noteq> []" "starfree post"
  shows "sub_marker n opn cls (pre @ stars n @ r @ stars n @ post) = pre @ opn @ r @ cls @ post"
  using assms by (simp add: sub_marker_starfree_append sub_marker_span sub_marker_starfree)

lemma stars_literals:
  "stars 3 = ''***''" "stars 2 = ''**''" "stars 1 = ''*''" "stars (Suc 0) = ''*''"
  by (simp_all add: stars_def numeral_3_eq_3 numeral_2_eq_2)

lemma html_escape_span:
  "html_escape (pre @ stars n @ r @ stars n @ post)
     = html_escape pre @ stars n @ html_escape r @ stars n @ html_escape post"
  by (simp add: html_escape_append html_escape_stars)

lemma inline_format_triple:
  assumes "starfree pre" "starfree r" "r \<noteq> []" "starfree post"
  shows "inline_format (pre @ stars 3 @ r @ stars 3 @ post)
    = html_escape pre @ ''<strong><em>'' @ html_escape r @ ''</em></strong>'' @ html_escape post"
proof -
  let ?out = "html_escape pre @ ''<strong><em>'' @ html_escape r @ ''</em></strong>'' @ html_escape post"
  have "sub_marker 3 ''<strong><em>'' ''</em></strong>'' (html_escape (pre @ stars 3 @ r @ stars 3 @ post)) = ?out"
    unfolding html_escape_span using assms
    by (intro sub_marker_this) (simp_all add: starfree_escape html_escape_nonempty)
  moreover have "starfree ?out"
    using assms by (simp add: starfree_escape)
  ultimately show ?thesis
    by (simp add: inline_format_def sub_marker_starfree del: append_assoc)
qed

lemma inline_format_double:
  assumes "starfree pre" "starfree r" "r \<noteq> []" "starfree post"
  shows "inline_format (pre @ stars 2 @ r @ stars 2 @ post)
    = html_escape pre @ ''<strong>'' @ html_escape r @ ''</strong>'' @ html_escape post"
proof -
  let ?out = "html_escape pre @ ''<strong>'' @ html_escape r @ ''</strong>'' @ html_escape post"
  let ?in = "html_escape pre @ stars 2 @ html_escape r @ stars 2 @ html_escape post"
  have "sub_marker 3 ''<strong><em>'' ''</em></strong>'' ?in = ?in"
    using assms by (intro sub_marker_other) (simp_all add: starfree_escape html_escape_nonempty)
  moreover have "sub_marker 2 ''<strong>'' ''</strong>'' ?in = ?out"
    using assms by (intro sub_marker_this) (simp_all add: starfree_escape html_escape_nonempty)
  moreover have "starfree ?out"
    using assms by (simp add: starfree_escape)
  ultimately show ?thesis
    by (simp add: inline_format_def html_escape_span sub_marker_starfree del: append_assoc)
qed

lemma inline_format_single:
  assumes "starfree pre" "starfree r" "r \<noteq> []" "starfree post"
  shows "inline_format (pre @ stars 1 @ r @ stars 1 @ post)
    = html_escape pre @ ''<em>'' @ html_escape r @ ''</em>'' @ html_escape post"
proof -
  let ?out = "html_escape pre @ ''<em>'' @ html_escape r @ ''</em>'' @ html_escape post"
  let ?in = "html_escape pre @ stars 1 @ html_escape r @ stars 1 @ html_escape post"
  have "sub_marker 3 ''<strong><em>'' ''</em></strong>'' ?in = ?in"
    using assms by (intro sub_marker_other) (simp_all add: starfree_escape html_escape_nonempty)
  moreover have "sub_marker 2 ''<strong>'' ''</strong>'' ?in = ?in"
    using assms by (intro sub_marker_other) (simp_all add: starfree_escape html_escape_nonempty)
  moreover have "sub_marker 1 ''<em>'' ''</em>'' ?in = ?out"
    using assms by (intro sub_marker_this) (simp_all add: starfree_escape html_escape_nonempty)
  ultimately show ?thesis
    by (simp add: inline_format_def html_escape_span del: append_assoc)
qed

lemma double_rule_on_triple:
  assumes "starfree r" "r \<noteq> []"
  shows "sub_marker 2 ''<strong>'' ''</strong>'' (''***'' @ r @ ''***'') = ''*<strong>'' @ r @ ''</strong>*''"
proof -
  have "takeWhile (\<lambda>c. c \<noteq> CHR ''*'') (CHR ''*'' # r @ ''***'') = []"
    by simp
  then have "match_marker 2 (''***'' @ r @ ''***'') = None"
    by (simp add: match_marker_def Let_def)
  then have "sub_marker 2 ''<strong>'' ''</strong>'' (''***'' @ r @ ''***'')
      = CHR ''*'' # sub_marker 2 ''<strong>'' ''</strong>'' (stars 2 @ r @ stars 2 @ ''*'')"
    by (simp add: sub_marker_Cons stars_literals)
  also have "sub_marker 2 ''<strong>'' ''</strong>'' (stars 2 @ r @ stars 2 @ ''*'')
      = ''<strong>'' @ r @ ''</strong>'' @ sub_marker 2 ''<strong>'' ''</strong>'' ''*''"
    using assms by (intro sub_marker_span) simp_all
  also have "sub_marker 2 ''<strong>'' ''</strong>'' ''*'' = ''*''"
    by (simp add: sub_marker_Cons match_marker_def stars_literals)
  finally show ?thesis by simp
qed

text \<open>
  Claim C9. The text is escaped first and the three substitutions then run from the
  longest marker to the shortest. For a span marked with three, two or one stars, with a
  non-empty star-free content inside star-free text, the result is the escaped text with
  the strong-and-emphasis, the strong or the emphasis element around the escaped
  content: the tags are not escaped, the text is. The double-marker rule alone would
  leave a star on each side of a triple-marked span, which the order of the rules
  excludes. The line \<open>Hello *world*.\<close> gets an emphasis element around \<open>world\<close>.
\<close>

theorem inline_format_longest_marker_first:
  assumes "starfree pre" and "starfree r" and "r \<noteq> []" and "starfree post"
  shows "inline_format (pre @ ''***'' @ r @ ''***'' @ post)
           = html_escape pre @ ''<strong><em>'' @ html_escape r @ ''</em></strong>'' @ html_escape post
       \<and> inline_format (pre @ ''**'' @ r @ ''**'' @ post)
           = html_escape pre @ ''<strong>'' @ html_escape r @ ''</strong>'' @ html_escape post
       \<and> inline_format (pre @ ''*'' @ r @ ''*'' @ post)
           = html_escape pre @ ''<em>'' @ html_escape r @ ''</em>'' @ html_escape post
       \<and> sub_marker 2 ''<strong>'' ''</strong>'' (''***'' @ r @ ''***'')
           = ''*<strong>'' @ r @ ''</strong>*''
       \<and> inline_format ''Hello *world*.'' = ''Hello <em>world</em>.''"
proof -
  have "inline_format (''Hello '' @ stars 1 @ ''world'' @ stars 1 @ ''.'')
      = html_escape ''Hello '' @ ''<em>'' @ html_escape ''world'' @ ''</em>'' @ html_escape ''.''"
    by (intro inline_format_single) simp_all
  then have "inline_format ''Hello *world*.'' = ''Hello <em>world</em>.''"
    by (simp add: stars_literals html_escape_def escape_char_def)
  then show ?thesis
    using inline_format_triple [OF assms] inline_format_double [OF assms]
      inline_format_single [OF assms] double_rule_on_triple [OF assms(2,3)]
    by (simp add: stars_literals)
qed

theorem inline_format_longest_marker_first_witness:
  "inline_format ''a<b ***x&y*** c'' = ''a&lt;b <strong><em>x&amp;y</em></strong> c''
   \<and> inline_format ''a<b **x&y** c'' = ''a&lt;b <strong>x&amp;y</strong> c''
   \<and> inline_format ''a<b *x&y* c'' = ''a&lt;b <em>x&amp;y</em> c''
   \<and> sub_marker 2 ''<strong>'' ''</strong>'' ''***x&y***'' = ''*<strong>x&y</strong>*''
   \<and> inline_format ''Hello *world*.'' = ''Hello <em>world</em>.''"
  using inline_format_longest_marker_first [of "''a<b ''" "''x&y''" "'' c''"]
  by (simp add: html_escape_def escape_char_def)

section \<open>Headings as the packer and as the renderer see them\<close>

lemma dropWhile_all_space: "(\<forall>c \<in> set (dropWhile isspace s). isspace c) \<longleftrightarrow> dropWhile isspace s = []"
  using hd_dropWhile [of isspace s]
  by (cases "dropWhile isspace s") (auto dest: set_dropWhileD)

lemma strip_Nil_iff: "strip s = [] \<longleftrightarrow> (\<forall>c \<in> set s. isspace c)"
proof -
  have "strip s = [] \<longleftrightarrow> (\<forall>c \<in> set (dropWhile isspace s). isspace c)"
    by (simp add: strip_def dropWhile_eq_Nil_conv)
  also have "\<dots> \<longleftrightarrow> dropWhile isspace s = []"
    by (rule dropWhile_all_space)
  also have "\<dots> \<longleftrightarrow> (\<forall>c \<in> set s. isspace c)"
    by (simp add: dropWhile_eq_Nil_conv)
  finally show ?thesis .
qed

lemma lstrip_append: "strip a \<noteq> [] \<Longrightarrow> lstrip (a @ b) = lstrip a @ b"
  by (auto simp: strip_Nil_iff lstrip_def dropWhile_append1)

lemma lstrip_nonempty: "strip a \<noteq> [] \<Longrightarrow> lstrip a \<noteq> []"
  by (auto simp: strip_Nil_iff lstrip_def dropWhile_eq_Nil_conv)

lemma heading_first_line:
  assumes "strip first \<noteq> []"
  shows "is_heading (first @ nl @ rest) = startswith ''# '' (lstrip first)"
proof -
  obtain c cs where l: "lstrip first = c # cs"
    using lstrip_nonempty [OF assms] by (cases "lstrip first") auto
  show ?thesis
    unfolding is_heading_def lstrip_append [OF assms] l startswith_def
    by (cases cs) auto
qed

lemma newline_not_break: "first @ nl @ rest \<noteq> PAGE_BREAK"
proof
  assume "first @ nl @ rest = PAGE_BREAK"
  then have "CHR 0x0A \<in> set PAGE_BREAK"
    by (metis append_Cons in_set_conv_decomp)
  then show False by (simp add: PAGE_BREAK_def)
qed

lemma split_py_nonempty: "split_py sep s \<noteq> []"
  by (induction sep s rule: split_py.induct) (auto split: list.splits)

lemma split_py_nl_append: "split_py nl (a @ nl @ b) = split_py nl a @ split_py nl b"
proof (induction a)
  case Nil
  then show ?case by simp
next
  case (Cons c a)
  then show ?case
    using split_py_nonempty [of nl a] by (cases "split_py nl a") (auto split: list.splits)
qed

lemma lines_of_join:
  "x \<in> set xs \<Longrightarrow> set (split_py nl x) \<subseteq> set (split_py nl (join_py nlnl xs))"
proof (induction xs)
  case Nil
  then show ?case by simp
next
  case (Cons y ys)
  show ?case
  proof (cases "ys = []")
    case True
    with Cons.prems show ?thesis by simp
  next
    case False
    then have "join_py nlnl (y # ys) = y @ nl @ (nl @ join_py nlnl ys)"
      by (simp add: join_py_Cons)
    then have "split_py nl (join_py nlnl (y # ys)) = split_py nl y @ [] # split_py nl (join_py nlnl ys)"
      by (simp only: split_py_nl_append) simp
    with Cons show ?thesis by auto
  qed
qed

lemma html_line_heading:
  "startswith ''# '' (strip l) \<Longrightarrow>
   html_line l = Some (h2_open @ inline_format (strip (drop 2 (strip l))) @ ''</h2>'')"
  by (auto simp: html_line_def Let_def startswith_def)

lemma html_parts_member:
  "l \<in> set (split_py nl block) \<Longrightarrow> html_line l = Some e \<Longrightarrow> e \<in> set (html_parts block)"
  by (force simp: html_parts_def map_filter_def)

lemma join_py_contains: "e \<in> set xs \<Longrightarrow> \<exists>a b. join_py sep xs = a @ e @ b"
proof (induction xs)
  case Nil
  then show ?case by simp
next
  case (Cons y ys)
  show ?case
  proof (cases "ys = []")
    case True
    with Cons.prems have "join_py sep (y # ys) = [] @ e @ []" by simp
    then show ?thesis by blast
  next
    case False
    then have j: "join_py sep (y # ys) = y @ sep @ join_py sep ys"
      by (simp add: join_py_Cons)
    show ?thesis
    proof (cases "e = y")
      case True
      then have "join_py sep (y # ys) = [] @ e @ (sep @ join_py sep ys)"
        using j by simp
      then show ?thesis by blast
    next
      case False
      with Cons obtain a b where "join_py sep ys = a @ e @ b" by auto
      then have "join_py sep (y # ys) = (y @ sep @ a) @ e @ b"
        using j by simp
      then show ?thesis by blast
    qed
  qed
qed

text \<open>
  Claim C8. The packer tests the whole paragraph, left-trimmed, for the prefix
  \<open>"# "\<close>: a paragraph of several lines whose first line is not blank is a heading
  exactly when its first line, left-trimmed, starts with \<open>"# "\<close>. A heading starts a
  page: the pending content is finalized (as a page, or by the orphan merge) and the page
  under construction becomes the heading alone. A paragraph that is neither a heading
  nor the marker takes the ordinary branch. The renderer turns every line of a page whose
  trimmed text starts with \<open>"# "\<close> into a heading element. So for a paragraph whose first
  line does not start with \<open>"# "\<close> and whose later line \<open>l\<close> does, no page is started, and
  the rendering of any page that holds the paragraph contains the heading element made
  from \<open>l\<close>.
\<close>

theorem packer_heading_vs_renderer_heading:
  "(strip first \<noteq> [] \<longrightarrow>
      is_heading (first @ nl @ rest) = startswith ''# '' (lstrip first))
   \<and> (is_heading para \<longrightarrow>
        pack_step st para =
          \<lparr> pages =
              (if current st = [] then pages st
               else if pages st \<noteq> [] \<and> current_len st < 450
               then butlast (pages st) @ [last (pages st) @ nlnl @ join_py nlnl (current st)]
               else pages st @ [join_py nlnl (current st)]),
            current = [para], current_len = length para \<rparr>)
   \<and> (\<not> is_heading para \<and> para \<noteq> PAGE_BREAK \<longrightarrow>
        pack_step st para =
          (if current st \<noteq> [] \<and> current_len st + length para > 1000
           then \<lparr> pages = pages st @ [join_py nlnl (current st)],
                  current = [para], current_len = length para \<rparr>
           else \<lparr> pages = pages st, current = current st @ [para],
                  current_len = current_len st + length para \<rparr>))
   \<and> (l \<in> set (split_py nl blk) \<and> startswith ''# '' (strip l) \<longrightarrow>
        h2_open @ inline_format (strip (drop 2 (strip l))) @ ''</h2>'' \<in> set (html_parts blk)
        \<and> (\<exists>a b. block_to_html blk
               = a @ h2_open @ inline_format (strip (drop 2 (strip l))) @ ''</h2>'' @ b))
   \<and> (strip first \<noteq> [] \<and> \<not> startswith ''# '' (lstrip first)
        \<and> l \<in> set (split_py nl rest) \<and> startswith ''# '' (strip l) \<longrightarrow>
        \<not> is_heading (first @ nl @ rest)
        \<and> pack_step st (first @ nl @ rest) =
            (if current st \<noteq> [] \<and> current_len st + length (first @ nl @ rest) > 1000
             then \<lparr> pages = pages st @ [join_py nlnl (current st)],
                    current = [first @ nl @ rest], current_len = length (first @ nl @ rest) \<rparr>
             else \<lparr> pages = pages st, current = current st @ [first @ nl @ rest],
                    current_len = current_len st + length (first @ nl @ rest) \<rparr>)
        \<and> (\<exists>a b. block_to_html (join_py nlnl (before @ [first @ nl @ rest] @ after))
               = a @ h2_open @ inline_format (strip (drop 2 (strip l))) @ ''</h2>'' @ b))"
proof -
  have c1: "is_heading (first @ nl @ rest) = startswith ''# '' (lstrip first)"
    if "strip first \<noteq> []"
    using that by (rule heading_first_line)
  have c2: "pack_step st p =
          \<lparr> pages =
              (if current st = [] then pages st
               else if pages st \<noteq> [] \<and> current_len st < 450
               then butlast (pages st) @ [last (pages st) @ nlnl @ join_py nlnl (current st)]
               else pages st @ [join_py nlnl (current st)]),
            current = [p], current_len = length p \<rparr>"
    if "is_heading p" for p
    using that heading_not_break [OF that]
    by (simp add: pack_step_def MIN_CHARS_PER_PAGE_def)
  have c3: "pack_step st p =
          (if current st \<noteq> [] \<and> current_len st + length p > 1000
           then \<lparr> pages = pages st @ [join_py nlnl (current st)],
                  current = [p], current_len = length p \<rparr>
           else \<lparr> pages = pages st, current = current st @ [p],
                  current_len = current_len st + length p \<rparr>)"
    if "\<not> is_heading p" "p \<noteq> PAGE_BREAK" for p
    using that by (simp add: pack_step_def TARGET_CHARS_PER_PAGE_def Let_def)
  have c4: "h2_open @ inline_format (strip (drop 2 (strip l))) @ ''</h2>'' \<in> set (html_parts b)
        \<and> (\<exists>x y. block_to_html b
               = x @ h2_open @ inline_format (strip (drop 2 (strip l))) @ ''</h2>'' @ y)"
    if "l \<in> set (split_py nl b)" "startswith ''# '' (strip l)" for b
  proof -
    have "h2_open @ inline_format (strip (drop 2 (strip l))) @ ''</h2>'' \<in> set (html_parts b)"
      using that(1) html_line_heading [OF that(2)] by (rule html_parts_member)
    moreover from this
    have "\<exists>x y. block_to_html b
        = x @ (h2_open @ inline_format (strip (drop 2 (strip l))) @ ''</h2>'') @ y"
      unfolding block_to_html_def by (rule join_py_contains)
    ultimately show ?thesis by simp
  qed
  have c5: "\<not> is_heading (first @ nl @ rest)
        \<and> pack_step st (first @ nl @ rest) =
            (if current st \<noteq> [] \<and> current_len st + length (first @ nl @ rest) > 1000
             then \<lparr> pages = pages st @ [join_py nlnl (current st)],
                    current = [first @ nl @ rest], current_len = length (first @ nl @ rest) \<rparr>
             else \<lparr> pages = pages st, current = current st @ [first @ nl @ rest],
                    current_len = current_len st + length (first @ nl @ rest) \<rparr>)
        \<and> (\<exists>a b. block_to_html (join_py nlnl (before @ [first @ nl @ rest] @ after))
               = a @ h2_open @ inline_format (strip (drop 2 (strip l))) @ ''</h2>'' @ b)"
    if "strip first \<noteq> []" "\<not> startswith ''# '' (lstrip first)"
      "l \<in> set (split_py nl rest)" "startswith ''# '' (strip l)"
  proof -
    let ?para = "first @ nl @ rest"
    have nh: "\<not> is_heading ?para"
      using c1 [OF that(1)] that(2) by simp
    have "l \<in> set (split_py nl ?para)"
      using that(3) by (simp only: split_py_nl_append) simp
    then have "l \<in> set (split_py nl (join_py nlnl (before @ [?para] @ after)))"
      using lines_of_join [of ?para "before @ [?para] @ after"] by auto
    then show ?thesis
      using nh c3 [OF nh newline_not_break] c4 [OF _ that(4)] by blast
  qed
  show ?thesis
    using c1 c2 c3 c4 c5 by blast
qed

lemma render_example:
  "block_to_html ''# Ch\<newline>\<newline>Intro line\<newline># Hidden title\<newline>more''
    = h2_open @ ''Ch</h2>\<newline><p>Intro line</p>\<newline>'' @ h2_open @ ''Hidden title</h2>\<newline><p>more</p>''"
  by code_simp

theorem packer_heading_vs_renderer_heading_witness:
  "strip ''# Title'' \<noteq> []
   \<and> is_heading ''# Title\<newline>body line''
   \<and> pack_step \<lparr> pages = [''p''], current = [''x''], current_len = 1 \<rparr> ''# Title\<newline>body line''
       = \<lparr> pages = [''p'' @ nlnl @ ''x''], current = [''# Title\<newline>body line''],
           current_len = 17 \<rparr>
   \<and> strip ''Intro line'' \<noteq> []
   \<and> \<not> startswith ''# '' (lstrip ''Intro line'')
   \<and> ''# Hidden title'' \<in> set (split_py nl ''# Hidden title\<newline>more'')
   \<and> startswith ''# '' (strip ''# Hidden title'')
   \<and> \<not> is_heading ''Intro line\<newline># Hidden title\<newline>more''
   \<and> ''Intro line\<newline># Hidden title\<newline>more'' \<noteq> PAGE_BREAK
   \<and> pack_step \<lparr> pages = [], current = [''# Ch''], current_len = 4 \<rparr>
        ''Intro line\<newline># Hidden title\<newline>more''
       = \<lparr> pages = [], current = [''# Ch'', ''Intro line\<newline># Hidden title\<newline>more''],
           current_len = 34 \<rparr>
   \<and> ''# Ch'' \<in> set (split_py nl ''# Ch\<newline>\<newline>Intro line\<newline># Hidden title\<newline>more'')
   \<and> h2_open @ inline_format ''Ch'' @ ''</h2>''
        \<in> set (html_parts ''# Ch\<newline>\<newline>Intro line\<newline># Hidden title\<newline>more'')
   \<and> h2_open @ inline_format ''Hidden title'' @ ''</h2>''
        \<in> set (html_parts ''# Ch\<newline>\<newline>Intro line\<newline># Hidden title\<newline>more'')
   \<and> block_to_html ''# Ch\<newline>\<newline>Intro line\<newline># Hidden title\<newline>more''
       = h2_open @ ''Ch</h2>\<newline><p>Intro line</p>\<newline>'' @ h2_open @ ''Hidden title</h2>\<newline><p>more</p>''"
proof -
  let ?pos = "''# Title\<newline>body line''"
  let ?neg = "''Intro line\<newline># Hidden title\<newline>more''"
  let ?blk = "''# Ch\<newline>\<newline>Intro line\<newline># Hidden title\<newline>more''"
  have a0: "strip ''# Title'' \<noteq> []" "startswith ''# '' (lstrip ''# Title'')"
    by (simp_all add: string_eval)
  have a1: "strip ''Intro line'' \<noteq> []"
    and a2: "\<not> startswith ''# '' (lstrip ''Intro line'')"
    and a3: "''# Hidden title'' \<in> set (split_py nl ''# Hidden title\<newline>more'')"
    and a4: "startswith ''# '' (strip ''# Hidden title'')"
    and a5: "''# Ch'' \<in> set (split_py nl ?blk)" "''# Hidden title'' \<in> set (split_py nl ?blk)"
    and a6: "startswith ''# '' (strip ''# Ch'')"
    by (simp_all add: string_eval)
  have s: "strip (drop 2 (strip ''# Hidden title'')) = ''Hidden title''"
    "strip (drop 2 (strip ''# Ch'')) = ''Ch''"
    by (simp_all add: string_eval)
  have nb: "?neg \<noteq> PAGE_BREAK"
    by (simp add: PAGE_BREAK_def)
  note pos = packer_heading_vs_renderer_heading
    [where first = "''# Title''" and rest = "''body line''" and para = ?pos
       and st = "\<lparr> pages = [''p''], current = [''x''], current_len = 1 \<rparr>"
       and l = "''# Ch''" and blk = ?blk and before = "[]" and after = "[]"]
  note neg = packer_heading_vs_renderer_heading
    [where first = "''Intro line''" and rest = "''# Hidden title\<newline>more''" and para = ?neg
       and st = "\<lparr> pages = [], current = [''# Ch''], current_len = 4 \<rparr>"
       and l = "''# Hidden title''" and blk = ?blk and before = "[''# Ch'']" and after = "[]"]
  have p1: "is_heading ?pos"
    using pos a0 by simp
  have p2: "pack_step \<lparr> pages = [''p''], current = [''x''], current_len = 1 \<rparr> ?pos
       = \<lparr> pages = [''p'' @ nlnl @ ''x''], current = [?pos], current_len = 17 \<rparr>"
    using pos p1 by simp
  have p3: "h2_open @ inline_format ''Ch'' @ ''</h2>'' \<in> set (html_parts ?blk)"
    using pos a5(1) a6 s(2) by simp
  have n1: "\<not> is_heading ?neg"
    using neg a1 a2 a3 a4 by simp
  have n2: "pack_step \<lparr> pages = [], current = [''# Ch''], current_len = 4 \<rparr> ?neg
       = \<lparr> pages = [], current = [''# Ch'', ?neg], current_len = 34 \<rparr>"
    using neg n1 nb by simp
  have n3: "h2_open @ inline_format ''Hidden title'' @ ''</h2>'' \<in> set (html_parts ?blk)"
    using neg a5(2) a4 s(1) by simp
  show ?thesis
    using a0(1) a1 a2 a3 a4 a5(1) p1 p2 p3 n1 nb n2 n3 render_example by simp
qed

section \<open>Pages as paragraphs joined by blank lines\<close>

lemma isspace_nl [simp]: "isspace (CHR 0x0A)"
  by (simp add: isspace_def)

declare split_py.simps(2) [simp del]

lemmas split_py_Cons = split_py.simps(2)

lemma prefix_nlnl_Cons:
  "prefix nlnl (c # cs) \<longleftrightarrow> c = CHR 0x0A \<and> cs \<noteq> [] \<and> hd cs = CHR 0x0A"
  by (cases cs) auto

lemma has_nn_Cons: "has_nn (c # cs) \<longleftrightarrow> prefix nlnl (c # cs) \<or> has_nn cs"
  by (cases cs) auto

lemma split_py_nlnl_Cons:
  "split_py nlnl (c # cs) =
     (if prefix nlnl (c # cs) then [] # split_py nlnl (tl cs)
      else (c # hd (split_py nlnl cs)) # tl (split_py nlnl cs))"
  using split_py_nonempty [of nlnl cs]
  by (cases "split_py nlnl cs") (auto simp: split_py_Cons drop_Suc)

lemma split_py_single: "\<not> has_nn p \<Longrightarrow> split_py nlnl p = [p]"
proof (induction p)
  case Nil
  then show ?case by simp
next
  case (Cons c p)
  then show ?case
    by (simp only: split_py_nlnl_Cons has_nn_Cons) simp
qed

lemma split_py_nlnl_append:
  "a = [] \<or> last a \<noteq> CHR 0x0A \<Longrightarrow>
   split_py nlnl (a @ nlnl @ b) = split_py nlnl a @ split_py nlnl b"
proof (induction a rule: length_induct)
  case (1 a)
  show ?case
  proof (cases a)
    case Nil
    then show ?thesis by (simp add: split_py_nlnl_Cons)
  next
    case (Cons c cs)
    show ?thesis
    proof (cases "prefix nlnl (c # cs)")
      case True
      then obtain cs' where a: "a = CHR 0x0A # CHR 0x0A # cs'"
        using Cons by (cases cs) (auto simp: prefix_nlnl_Cons)
      have l: "last a \<noteq> CHR 0x0A"
        using 1(2) Cons by simp
      have ne: "cs' \<noteq> []"
      proof
        assume "cs' = []"
        then have "last a = CHR 0x0A" unfolding a by simp
        with l show False by simp
      qed
      then have "last cs' = last a"
        unfolding a by simp
      then have "cs' = [] \<or> last cs' \<noteq> CHR 0x0A"
        using l by simp
      moreover have "length cs' < length a"
        unfolding a by simp
      ultimately have "split_py nlnl (cs' @ nlnl @ b) = split_py nlnl cs' @ split_py nlnl b"
        using 1(1) by blast
      then show ?thesis
        unfolding a by (simp add: split_py_nlnl_Cons)
    next
      case False
      have np: "\<not> prefix nlnl (c # cs @ nlnl @ b)"
        using False 1(2) Cons by (cases cs) (auto simp: prefix_nlnl_Cons)
      have "cs = [] \<or> last cs \<noteq> CHR 0x0A"
        using 1(2) Cons by (cases cs) auto
      moreover have "length cs < length a"
        using Cons by simp
      ultimately have ih: "split_py nlnl (cs @ nlnl @ b) = split_py nlnl cs @ split_py nlnl b"
        using 1(1) by blast
      have "split_py nlnl (c # cs @ nlnl @ b)
          = (c # hd (split_py nlnl (cs @ nlnl @ b))) # tl (split_py nlnl (cs @ nlnl @ b))"
        using np by (simp only: split_py_nlnl_Cons if_False)
      also have "\<dots> = ((c # hd (split_py nlnl cs)) # tl (split_py nlnl cs)) @ split_py nlnl b"
        unfolding ih using split_py_nonempty [of nlnl cs] by (cases "split_py nlnl cs") auto
      also have "(c # hd (split_py nlnl cs)) # tl (split_py nlnl cs) = split_py nlnl (c # cs)"
        using False by (simp only: split_py_nlnl_Cons if_False)
      finally show ?thesis
        using Cons by simp
    qed
  qed
qed

lemma join_py_nonempty: "g \<noteq> [] \<Longrightarrow> last g \<noteq> [] \<Longrightarrow> join_py sep g \<noteq> []"
proof (induction g)
  case Nil
  then show ?case by simp
next
  case (Cons x g)
  then show ?case
    by (cases "g = []") (auto simp: join_py_Cons)
qed

lemma last_join_py: "g \<noteq> [] \<Longrightarrow> last g \<noteq> [] \<Longrightarrow> last (join_py sep g) = last (last g)"
proof (induction g)
  case Nil
  then show ?case by simp
next
  case (Cons x g)
  then show ?case
    using join_py_nonempty [of g sep] by (cases "g = []") (auto simp: join_py_Cons)
qed

lemma page_ok_join:
  assumes "\<forall>p \<in> set g. para_ok p" "g \<noteq> []"
  shows "page_ok (join_py nlnl g)"
proof -
  have "para_ok (last g)" using assms by simp
  then show ?thesis
    using assms(2) by (simp add: page_ok_def para_ok_def last_join_py join_py_nonempty)
qed

lemma page_ok_last: "page_ok p \<Longrightarrow> p = [] \<or> last p \<noteq> CHR 0x0A"
  by (auto simp: page_ok_def)

lemma split_join_paragraphs:
  "\<forall>p \<in> set g. para_ok p \<Longrightarrow> g \<noteq> [] \<Longrightarrow> split_py nlnl (join_py nlnl g) = g"
proof (induction g)
  case Nil
  then show ?case by simp
next
  case (Cons x g)
  have x: "\<not> has_nn x" "x = [] \<or> last x \<noteq> CHR 0x0A"
    using Cons.prems(1) by (auto simp: para_ok_def)
  show ?case
  proof (cases "g = []")
    case True
    then show ?thesis using x by (simp add: split_py_single)
  next
    case False
    then have "join_py nlnl (x # g) = x @ nlnl @ join_py nlnl g"
      by (simp add: join_py_Cons)
    then have "split_py nlnl (join_py nlnl (x # g)) = split_py nlnl x @ split_py nlnl (join_py nlnl g)"
      using split_py_nlnl_append [OF x(2)] by simp
    then show ?thesis
      using Cons False x(1) by (simp add: split_py_single)
  qed
qed

lemma page_ok_merge: "page_ok b \<Longrightarrow> page_ok (a @ nlnl @ b)"
  by (simp add: page_ok_def)

lemma split_merge:
  "page_ok a \<Longrightarrow> split_py nlnl (a @ nlnl @ b) = split_py nlnl a @ split_py nlnl b"
  by (rule split_py_nlnl_append) (rule page_ok_last)

section \<open>What packing and repair keep\<close>

lemma page_ok_merge_Cons: "page_ok b \<Longrightarrow> page_ok (a @ CHR 0x0A # CHR 0x0A # b)"
  using page_ok_merge [of b a] by simp

lemma split_merge_Cons:
  "page_ok a \<Longrightarrow> split_py nlnl (a @ CHR 0x0A # CHR 0x0A # b) = split_py nlnl a @ split_py nlnl b"
  using split_merge [of a b] by simp

lemma pack_inv_init: "pack_inv packer_init []"
  by (simp add: pack_inv_def packer_init_def)

lemma pack_inv_flush:
  assumes "pack_inv st seen" "current st \<noteq> []"
  shows "pack_inv \<lparr> pages = pages st @ [join_py nlnl (current st)], current = [], current_len = n \<rparr> seen"
  using assms by (simp add: pack_inv_def page_ok_join split_join_paragraphs)

lemma pack_inv_merge:
  assumes "pack_inv st seen" "current st \<noteq> []" "pages st \<noteq> []"
  shows "pack_inv \<lparr> pages = butlast (pages st) @ [last (pages st) @ nlnl @ join_py nlnl (current st)],
                    current = [], current_len = n \<rparr> seen"
proof -
  let ?j = "join_py nlnl (current st)"
  have ps: "pages st = butlast (pages st) @ [last (pages st)]"
    using assms(3) by simp
  have lp: "page_ok (last (pages st))"
    using assms(1,3) by (simp add: pack_inv_def)
  have j: "page_ok ?j" "split_py nlnl ?j = current st"
    using assms(1,2) by (simp_all add: pack_inv_def page_ok_join split_join_paragraphs)
  have "concat (map (split_py nlnl) (butlast (pages st) @ [last (pages st) @ nlnl @ ?j]))
      = concat (map (split_py nlnl) (butlast (pages st) @ [last (pages st)])) @ current st"
    by (simp add: split_merge_Cons [OF lp] j(2))
  then have "concat (map (split_py nlnl) (butlast (pages st) @ [last (pages st) @ nlnl @ ?j]))
      = concat (map (split_py nlnl) (pages st)) @ current st"
    using ps by simp
  moreover have "\<forall>p \<in> set (butlast (pages st)). page_ok p"
    using assms(1) by (auto simp: pack_inv_def dest: in_set_butlastD)
  ultimately show ?thesis
    using assms(1) j(1) by (simp add: pack_inv_def page_ok_merge_Cons)
qed

lemma pack_inv_append:
  assumes "pack_inv st seen" "para_ok para" "para \<noteq> PAGE_BREAK"
  shows "pack_inv \<lparr> pages = pages st, current = current st @ [para], current_len = n \<rparr> (seen @ [para])"
  using assms by (simp add: pack_inv_def)

lemma pack_inv_skip:
  assumes "pack_inv st seen"
  shows "pack_inv st (seen @ [PAGE_BREAK])"
  using assms by (simp add: pack_inv_def)

lemma pack_inv_step:
  assumes "pack_inv st seen" "para_ok para"
  shows "pack_inv (pack_step st para) (seen @ [para])"
proof (cases "para = PAGE_BREAK")
  case True
  show ?thesis
  proof (cases "current st = []")
    case True
    with \<open>para = PAGE_BREAK\<close> show ?thesis
      using pack_inv_skip [OF assms(1)] by (simp add: pack_step_def)
  next
    case False
    with \<open>para = PAGE_BREAK\<close> show ?thesis
      using pack_inv_skip [OF pack_inv_flush [OF assms(1) False, of 0]]
      by (simp add: pack_step_def)
  qed
next
  case nb: False
  show ?thesis
  proof (cases "is_heading para")
    case True
    show ?thesis
    proof (cases "current st = []")
      case True
      then show ?thesis
        using nb \<open>is_heading para\<close> pack_inv_append [OF assms(1,2) nb, of "length para"]
        by (simp add: pack_step_def)
    next
      case False
      show ?thesis
      proof (cases "length (pages st) > 0 \<and> current_len st < MIN_CHARS_PER_PAGE")
        case True
        then have "pages st \<noteq> []" by auto
        from pack_inv_append [OF pack_inv_merge [OF assms(1) False this, of 0] assms(2) nb, of "length para"]
        show ?thesis
          using nb \<open>is_heading para\<close> False True by (auto simp: pack_step_def)
      next
        case f: False
        from pack_inv_append [OF pack_inv_flush [OF assms(1) False, of 0] assms(2) nb, of "length para"]
        show ?thesis
          using nb \<open>is_heading para\<close> False f by (auto simp: pack_step_def)
      qed
    qed
  next
    case nh: False
    show ?thesis
    proof (cases "current st \<noteq> [] \<and> current_len st + length para > TARGET_CHARS_PER_PAGE")
      case True
      then have c: "current st \<noteq> []" by simp
      from pack_inv_append [OF pack_inv_flush [OF assms(1) c, of 0] assms(2) nb, of "length para"]
      show ?thesis
        using nb nh True by (simp add: pack_step_def)
    next
      case False
      from pack_inv_append [OF assms(1,2) nb, of "current_len st + length para"]
      show ?thesis
        using nb nh False by (auto simp: pack_step_def Let_def)
    qed
  qed
qed

lemma pack_inv_foldl:
  "pack_inv st seen \<Longrightarrow> \<forall>p \<in> set ps. para_ok p \<Longrightarrow>
   pack_inv (foldl pack_step st ps) (seen @ ps)"
proof (induction ps arbitrary: st seen)
  case Nil
  then show ?case by simp
next
  case (Cons p ps)
  then show ?case
    using Cons.IH [of "pack_step st p" "seen @ [p]"] pack_inv_step [of st seen p] by simp
qed

lemma pack_pages_ok:
  assumes "\<forall>p \<in> set ps. para_ok p"
  shows "(\<forall>page \<in> set (pack_pages ps). page_ok page)
       \<and> concat (map (split_py nlnl) (pack_pages ps)) = filter (\<lambda>p. p \<noteq> PAGE_BREAK) ps"
proof -
  let ?st = "foldl pack_step packer_init ps"
  have i: "pack_inv ?st ps"
    using pack_inv_foldl [OF pack_inv_init assms] by simp
  show ?thesis
  proof (cases "current ?st = []")
    case True
    with i show ?thesis by (simp add: pack_pages_def pack_inv_def Let_def)
  next
    case False
    from pack_inv_flush [OF i False, of 0] show ?thesis
      using False by (simp add: pack_pages_def pack_inv_def Let_def)
  qed
qed

lemma merge_next_ok:
  assumes "Suc i < length pgs" "\<forall>p \<in> set pgs. page_ok p"
  shows "(\<forall>p \<in> set (merge_next i pgs). page_ok p)
       \<and> concat (map (split_py nlnl) (merge_next i pgs)) = concat (map (split_py nlnl) pgs)"
proof -
  let ?a = "pgs ! i" and ?b = "pgs ! Suc i"
  have pgs: "pgs = take i pgs @ [?a, ?b] @ drop (i + 2) pgs"
    using assms(1) by (metis Cons_nth_drop_Suc Suc_lessD add_2_eq_Suc' append.simps(1,2) id_take_nth_drop)
  have m: "merge_next i pgs = take i pgs @ [?a @ nlnl @ ?b] @ drop (i + 2) pgs"
    using assms(1) by (rule merge_next_eq)
  have ab: "page_ok ?a" "page_ok ?b"
    using assms by simp_all
  have 1: "\<forall>p \<in> set (merge_next i pgs). page_ok p"
    unfolding m using assms(2) ab(2)
    by (auto simp: page_ok_merge_Cons dest: in_set_takeD in_set_dropD)
  have "concat (map (split_py nlnl) (merge_next i pgs))
      = concat (map (split_py nlnl) (take i pgs @ [?a, ?b] @ drop (i + 2) pgs))"
    unfolding m by (simp add: split_merge_Cons [OF ab(1)])
  also have "\<dots> = concat (map (split_py nlnl) pgs)"
    by (rule arg_cong [OF pgs [symmetric]])
  finally show ?thesis
    using 1 by blast
qed

lemma repair_loop_ok:
  "\<forall>p \<in> set (snd s). page_ok p \<Longrightarrow>
   (\<forall>p \<in> set (repair_loop s). page_ok p)
   \<and> concat (map (split_py nlnl) (repair_loop s)) = concat (map (split_py nlnl) (snd s))"
proof (induction s rule: repair_loop.induct)
  case (1 s)
  obtain i pgs where s: "s = (i, pgs)" by (cases s)
  show ?case
  proof (cases "repair_cond s")
    case False
    then show ?thesis using 1(2) by (simp add: repair_loop.simps)
  next
    case True
    then have lt: "Suc i < length pgs"
      using s by (simp add: repair_cond_iff)
    have b: "(\<forall>p \<in> set (snd (repair_body s)). page_ok p)
        \<and> concat (map (split_py nlnl) (snd (repair_body s))) = concat (map (split_py nlnl) (snd s))"
      using merge_next_ok [OF lt] 1(2) s by (simp add: repair_body_def)
    moreover have "repair_loop s = repair_loop (repair_body s)"
      using True by (subst repair_loop.simps) simp
    ultimately show ?thesis
      using 1(1) [OF True] by simp
  qed
qed

lemma build_pages_ok:
  assumes "\<forall>p \<in> set ps. para_ok p"
  shows "(\<forall>page \<in> set (build_pages_from_paragraphs ps). page_ok page)
       \<and> concat (map (split_py nlnl) (build_pages_from_paragraphs ps))
           = filter (\<lambda>p. p \<noteq> PAGE_BREAK) ps"
  using pack_pages_ok [OF assms] repair_loop_ok [of "(0, pack_pages ps)"]
  by (simp add: build_pages_from_paragraphs_def)

section \<open>What the splitter emits\<close>

lemma has_nn_append:
  "has_nn (a @ b) \<longleftrightarrow>
     has_nn a \<or> has_nn b \<or> (a \<noteq> [] \<and> b \<noteq> [] \<and> last a = CHR 0x0A \<and> hd b = CHR 0x0A)"
proof (induction a)
  case Nil
  then show ?case by simp
next
  case (Cons c a)
  show ?case
  proof (cases a)
    case Nil
    then show ?thesis by (cases b) auto
  next
    case (Cons d a')
    then show ?thesis
      using Cons.IH by auto
  qed
qed

lemma has_nn_rev: "has_nn (rev s) = has_nn s"
proof (induction s)
  case Nil
  then show ?case by simp
next
  case (Cons c s)
  then show ?case
    by (cases s) (auto simp: has_nn_append last_rev hd_rev)
qed

lemma has_nn_dropWhile: "has_nn (dropWhile P s) \<Longrightarrow> has_nn s"
proof -
  assume "has_nn (dropWhile P s)"
  then have "has_nn (takeWhile P s @ dropWhile P s)"
    by (simp only: has_nn_append) simp
  then show ?thesis by simp
qed

lemma has_nn_strip: "\<not> has_nn s \<Longrightarrow> \<not> has_nn (strip s)"
  unfolding strip_def has_nn_rev
  by (metis has_nn_dropWhile has_nn_rev)

lemma no_nl_no_nn: "CHR 0x0A \<notin> set s \<Longrightarrow> \<not> has_nn s"
  by (induction s rule: has_nn.induct) auto

lemma strip_last: "strip s \<noteq> [] \<Longrightarrow> \<not> isspace (last (strip s))"
proof -
  assume a: "strip s \<noteq> []"
  let ?d = "dropWhile isspace (rev (dropWhile isspace s))"
  have "?d \<noteq> []" using a by (simp add: strip_def)
  then have "\<not> isspace (hd ?d)" by (rule hd_dropWhile)
  moreover have "last (strip s) = hd ?d"
    using \<open>?d \<noteq> []\<close> by (simp add: strip_def last_rev)
  ultimately show ?thesis by simp
qed

lemma set_join_py: "x \<in> set xs \<Longrightarrow> set x \<subseteq> set (join_py sep xs)"
proof (induction xs)
  case Nil
  then show ?case by simp
next
  case (Cons y ys)
  then show ?case
    by (cases "ys = []") (auto simp: join_py_Cons)
qed

lemma join_lines_no_nn:
  "\<forall>l \<in> set ls. l \<noteq> [] \<and> CHR 0x0A \<notin> set l \<Longrightarrow> \<not> has_nn (join_py nl ls)"
proof (induction ls)
  case Nil
  then show ?case by simp
next
  case (Cons x ls)
  show ?case
  proof (cases ls)
    case Nil
    with Cons.prems show ?thesis by (simp add: no_nl_no_nn)
  next
    case (Cons y ys)
    have x0: "x \<noteq> []" "CHR 0x0A \<notin> set x"
      using Cons.prems by simp_all
    then have "last x \<noteq> CHR 0x0A" by (metis last_in_set)
    with x0 have x: "\<not> has_nn x" "x \<noteq> []" "last x \<noteq> CHR 0x0A"
      by (simp_all add: no_nl_no_nn)
    have y0: "y \<noteq> []" "CHR 0x0A \<notin> set y"
      using Cons.prems Cons by simp_all
    then have "hd y \<noteq> CHR 0x0A" by (metis hd_in_set)
    with y0 have y: "y \<noteq> []" "hd y \<noteq> CHR 0x0A"
      by simp_all
    let ?r = "join_py nl (y # ys)"
    have r: "\<not> has_nn ?r" "?r \<noteq> []" "hd ?r \<noteq> CHR 0x0A"
      using Cons.IH Cons.prems Cons y by (cases ys; simp)+
    have "has_nn (CHR 0x0A # ?r) = False"
      using r by (simp only: has_nn_Cons prefix_nlnl_Cons) simp
    then have "\<not> has_nn (x @ (CHR 0x0A # ?r))"
      using x by (simp only: has_nn_append) simp
    then show ?thesis
      using Cons by simp
  qed
qed

lemma para_ok_strip_join:
  assumes "ls \<noteq> []" and "\<forall>l \<in> set ls. strip l \<noteq> [] \<and> CHR 0x0A \<notin> set l"
  shows "para_ok (strip (join_py nl ls))"
proof -
  have ne: "\<forall>l \<in> set ls. l \<noteq> [] \<and> CHR 0x0A \<notin> set l"
    using assms(2) by (auto simp: strip_def)
  obtain l where l: "l \<in> set ls" using assms(1) by (cases ls) auto
  then obtain c where "c \<in> set l" "\<not> isspace c"
    using assms(2) by (auto simp: strip_Nil_iff)
  then have "strip (join_py nl ls) \<noteq> []"
    using set_join_py [OF l, of nl] by (auto simp: strip_Nil_iff)
  then show ?thesis
    using join_lines_no_nn [OF ne] by (simp add: para_ok_def strip_last has_nn_strip)
qed

lemma para_ok_PAGE_BREAK: "para_ok PAGE_BREAK"
  by (simp add: para_ok_def PAGE_BREAK_def isspace_def)

lemma split_py_nl_Cons:
  "split_py nl (c # cs) =
     (if c = CHR 0x0A then [] # split_py nl cs
      else (c # hd (split_py nl cs)) # tl (split_py nl cs))"
  using split_py_nonempty [of nl cs]
  by (cases "split_py nl cs") (auto simp: split_py_Cons)

lemma split_py_nl_lines: "l \<in> set (split_py nl s) \<Longrightarrow> CHR 0x0A \<notin> set l"
proof (induction s arbitrary: l)
  case Nil
  then show ?case by simp
next
  case (Cons c s)
  then show ?case
    using split_py_nonempty [of nl s]
    by (cases "split_py nl s") (auto simp: split_py_nl_Cons split: if_splits)
qed

lemma set_rstrip_cr: "set (rstrip_cr l) \<subseteq> set l"
  unfolding rstrip_cr_def using set_dropWhileD [of _ "\<lambda>c. c = CHR 0x0D" "rev l"] by auto

lemma flush_ok: "parse_inv s \<Longrightarrow> \<forall>p \<in> set (flush s). para_ok p"
  by (cases s) (auto simp: parse_inv_def flush_def para_ok_strip_join)

lemma parse_step_inv:
  assumes "parse_inv s" "CHR 0x0A \<notin> set raw_line"
  shows "parse_inv (parse_step s raw_line)"
proof -
  have "CHR 0x0A \<notin> set (rstrip_cr raw_line)"
    using assms(2) set_rstrip_cr [of raw_line] by auto
  then show ?thesis
    using assms(1) flush_ok [OF assms(1)]
    by (auto simp: parse_step_def Let_def parse_inv_def para_ok_PAGE_BREAK)
qed

lemma parse_foldl_inv:
  "parse_inv s \<Longrightarrow> \<forall>l \<in> set ls. CHR 0x0A \<notin> set l \<Longrightarrow> parse_inv (foldl parse_step s ls)"
  by (induction ls arbitrary: s) (simp_all add: parse_step_inv)

lemma parse_paragraphs_ok: "\<forall>p \<in> set (parse_paragraphs text). para_ok p"
proof -
  have "parse_inv (foldl parse_step ([], []) (split_py nl text))"
    by (rule parse_foldl_inv) (auto simp: parse_inv_def dest: split_py_nl_lines)
  then show ?thesis
    unfolding parse_paragraphs_def by (rule flush_ok)
qed

section \<open>Content preservation and non-empty pages\<close>

text \<open>
  What packing and repair keep, for every manuscript text: the blocks of the final pages
  (each page split on the blank-line separator), concatenated in page order, are exactly
  the elements of the splitter's output that are not equal to the forced-break token, in
  the splitter's order.
\<close>

lemma content_preserved:
  "concat (map (split_py nlnl) (build_pages_from_paragraphs (parse_paragraphs text)))
     = filter (\<lambda>p. p \<noteq> PAGE_BREAK) (parse_paragraphs text)"
  using build_pages_ok [OF parse_paragraphs_ok [of "text"]] by simp

lemma split_py_nl_subset: "l \<in> set (split_py nl s) \<Longrightarrow> set l \<subseteq> set s"
proof (induction s arbitrary: l)
  case Nil
  then show ?case by simp
next
  case (Cons c s)
  show ?case
  proof (cases "c = CHR 0x0A")
    case True
    then show ?thesis
      using Cons by (auto simp: split_py_nl_Cons)
  next
    case False
    then consider "l = c # hd (split_py nl s)" | "l \<in> set (tl (split_py nl s))"
      using Cons.prems by (auto simp: split_py_nl_Cons)
    then show ?thesis
    proof cases
      case 1
      have "hd (split_py nl s) \<in> set (split_py nl s)"
        using split_py_nonempty [of nl s] by simp
      then have "set (hd (split_py nl s)) \<subseteq> set s"
        by (rule Cons.IH)
      with 1 show ?thesis by auto
    next
      case 2
      then have "l \<in> set (split_py nl s)"
        by (rule list.set_sel(2) [rotated]) (rule split_py_nonempty)
      then have "set l \<subseteq> set s" by (rule Cons.IH)
      then show ?thesis by auto
    qed
  qed
qed

lemma parse_only_blank:
  "\<forall>l \<in> set ls. strip (rstrip_cr l) = [] \<Longrightarrow> foldl parse_step (ps, []) ls = (ps, [])"
  by (induction ls) (simp_all add: parse_step_def flush_def PAGE_SENTINEL_def)

lemma parse_whitespace:
  assumes "\<forall>c \<in> set text. isspace c"
  shows "parse_paragraphs text = []"
proof -
  have "\<forall>l \<in> set (split_py nl text). strip (rstrip_cr l) = []"
    using assms split_py_nl_subset [of _ "text"] set_rstrip_cr
    by (fastforce simp: strip_Nil_iff)
  then show ?thesis
    by (simp add: parse_paragraphs_def parse_only_blank flush_def)
qed

lemma build_Nil: "build_pages_from_paragraphs [] = []"
  by (simp add: build_pages_from_paragraphs_def pack_pages_def packer_init_def repair_loop_Nil)

text \<open>
  Claim C5. For every manuscript text every page of the result is a non-empty string; a
  text whose splitter output holds no paragraph (only markers, or nothing) gives no page
  at all, and so does every text made of whitespace only, the empty text included. The
  model has no failing branch: every index read of the source is guarded, and the three
  loops terminate (two run over a finite list, the repair loop by its variant).
\<close>

theorem pages_never_empty:
  "(\<forall>page \<in> set (build_pages_from_paragraphs (parse_paragraphs text)). page \<noteq> [])
   \<and> (filter (\<lambda>p. p \<noteq> PAGE_BREAK) (parse_paragraphs text) = [] \<longrightarrow>
        build_pages_from_paragraphs (parse_paragraphs text) = [])
   \<and> ((\<forall>c \<in> set text. isspace c) \<longrightarrow>
        parse_paragraphs text = [] \<and> build_pages_from_paragraphs (parse_paragraphs text) = [])"
proof (intro conjI impI)
  note ok = build_pages_ok [OF parse_paragraphs_ok [of "text"]]
  show "\<forall>page \<in> set (build_pages_from_paragraphs (parse_paragraphs text)). page \<noteq> []"
    using ok by (auto simp: page_ok_def)
  show "build_pages_from_paragraphs (parse_paragraphs text) = []"
    if "filter (\<lambda>p. p \<noteq> PAGE_BREAK) (parse_paragraphs text) = []"
  proof (cases "build_pages_from_paragraphs (parse_paragraphs text)")
    case Nil
    then show ?thesis .
  next
    case (Cons page rest)
    then have "split_py nlnl page = []"
      using ok that by simp
    then show ?thesis
      using split_py_nonempty [of nlnl page] by simp
  qed
  show "parse_paragraphs text = []" if "\<forall>c \<in> set text. isspace c"
    using that by (rule parse_whitespace)
  show "build_pages_from_paragraphs (parse_paragraphs text) = []" if "\<forall>c \<in> set text. isspace c"
    using parse_whitespace [OF that] by (simp add: build_Nil)
qed

lemmas parse_eval = parse_paragraphs_def parse_step_def flush_def PAGE_SENTINEL_def
  split_py_Cons

lemma parse_example:
  "parse_paragraphs ''a \<newline>\<newline> \<newline>\<newline>b\<newline>===PAGE===\<newline>'' = [''a'', ''b'', PAGE_BREAK]"
  by (simp add: parse_eval string_eval)

lemma build_example:
  "build_pages_from_paragraphs [''a'', ''b'', PAGE_BREAK] = [''a'' @ nlnl @ ''b'']"
  by (simp add: packer_eval repair_eval string_eval)

theorem pages_never_empty_witness:
  "build_pages_from_paragraphs (parse_paragraphs ''a \<newline>\<newline> \<newline>\<newline>b\<newline>===PAGE===\<newline>'')
     = [''a'' @ nlnl @ ''b'']
   \<and> ''a'' @ nlnl @ ''b'' \<noteq> []
   \<and> parse_paragraphs ''===PAGE==='' = [PAGE_BREAK]
   \<and> build_pages_from_paragraphs (parse_paragraphs ''===PAGE==='') = []
   \<and> isspace (CHR '' '') \<and> isspace (CHR 0x0A)
   \<and> build_pages_from_paragraphs (parse_paragraphs '' \<newline>\<newline> '') = []
   \<and> build_pages_from_paragraphs (parse_paragraphs []) = []"
proof -
  have p: "parse_paragraphs ''===PAGE==='' = [PAGE_BREAK]"
    by (simp add: parse_eval string_eval)
  show ?thesis
    using pages_never_empty [of "''a \<newline>\<newline> \<newline>\<newline>b\<newline>===PAGE===\<newline>''"]
      pages_never_empty [of "''===PAGE===''"]
      pages_never_empty [of "'' \<newline>\<newline> ''"]
      pages_never_empty [of "[]"]
    by (simp add: p parse_example build_example build_Nil isspace_def)
qed

text \<open>
  Claim C4 fails on the code. The splitter emits a forced break as the string
  \<open>__PAGE_BREAK__\<close>, and the packer takes every element equal to that string for a
  forced break. The manuscript below has three paragraphs and no sentinel line; its second
  paragraph has the text of the token, the packer drops it and breaks the page there, and
  the blocks of the pages are not the splitter's paragraphs.
\<close>

theorem token_paragraph_lost:
  "split_py nl ''a\<newline>\<newline>__PAGE_BREAK__\<newline>\<newline>b'' = [''a'', [], ''__PAGE_BREAK__'', [], ''b'']
   \<and> strip (rstrip_cr ''a'') \<noteq> PAGE_SENTINEL
   \<and> strip (rstrip_cr []) \<noteq> PAGE_SENTINEL
   \<and> strip (rstrip_cr ''__PAGE_BREAK__'') \<noteq> PAGE_SENTINEL
   \<and> strip (rstrip_cr ''b'') \<noteq> PAGE_SENTINEL
   \<and> parse_paragraphs ''a\<newline>\<newline>__PAGE_BREAK__\<newline>\<newline>b'' = [''a'', ''__PAGE_BREAK__'', ''b'']
   \<and> build_pages_from_paragraphs (parse_paragraphs ''a\<newline>\<newline>__PAGE_BREAK__\<newline>\<newline>b'')
        = [''a'', ''b'']
   \<and> concat (map (split_py nlnl)
          (build_pages_from_paragraphs (parse_paragraphs ''a\<newline>\<newline>__PAGE_BREAK__\<newline>\<newline>b'')))
        = [''a'', ''b'']
   \<and> concat (map (split_py nlnl)
          (build_pages_from_paragraphs (parse_paragraphs ''a\<newline>\<newline>__PAGE_BREAK__\<newline>\<newline>b'')))
        \<noteq> parse_paragraphs ''a\<newline>\<newline>__PAGE_BREAK__\<newline>\<newline>b''"
proof -
  have l: "split_py nl ''a\<newline>\<newline>__PAGE_BREAK__\<newline>\<newline>b'' = [''a'', [], ''__PAGE_BREAK__'', [], ''b'']"
    by (simp add: split_py_Cons)
  have p: "parse_paragraphs ''a\<newline>\<newline>__PAGE_BREAK__\<newline>\<newline>b'' = [''a'', ''__PAGE_BREAK__'', ''b'']"
    unfolding parse_paragraphs_def l
    by (simp add: parse_step_def flush_def PAGE_SENTINEL_def PAGE_BREAK_def string_eval)
  have b: "build_pages_from_paragraphs [''a'', ''__PAGE_BREAK__'', ''b''] = [''a'', ''b'']"
    by (simp add: packer_eval repair_eval string_eval split_py_Cons)
  show ?thesis
    unfolding p b using l
    by (simp add: PAGE_SENTINEL_def string_eval split_py_Cons)
qed

section \<open>The page budget\<close>

lemma within_budget_init: "within_budget packer_init"
  by (simp add: within_budget_def packer_init_def)

lemma within_budget_step: "within_budget st \<Longrightarrow> within_budget (pack_step st para)"
  by (auto simp: within_budget_def pack_step_def Let_def)

lemma within_budget_foldl: "within_budget st \<Longrightarrow> within_budget (foldl pack_step st ps)"
  by (induction ps arbitrary: st) (simp_all add: within_budget_step)

lemma pack_step_pages:
  "pages (pack_step st para) = pages st
   \<or> pages (pack_step st para)
        = butlast (pages st) @ [last (pages st) @ nlnl @ join_py nlnl (current st)]
   \<or> pages (pack_step st para) = pages st @ [join_py nlnl (current st)]"
  by (simp add: pack_step_def Let_def)

text \<open>
  Claim C3, as amended. After any prefix of the input the pending paragraphs' accumulated
  length exceeds 1000 only if the pending content is a single paragraph whose own length
  exceeds 1000. A step of the packer changes the completed pages in one of three ways
  only: not at all, by appending the join of the pending paragraphs as a new page (which
  therefore is within the budget or a single long paragraph), or by the orphan merge onto
  the last page. The orphan merge and the repair pass concatenate pages without a size
  test.
\<close>

theorem pending_page_within_budget:
  "current_len (foldl pack_step packer_init ps)
     = sum_list (map length (current (foldl pack_step packer_init ps)))
   \<and> (1000 < sum_list (map length (current (foldl pack_step packer_init ps))) \<longrightarrow>
        (\<exists>p. current (foldl pack_step packer_init ps) = [p] \<and> 1000 < length p))
   \<and> (pages (foldl pack_step packer_init (ps @ [para])) = pages (foldl pack_step packer_init ps)
      \<or> pages (foldl pack_step packer_init (ps @ [para]))
           = butlast (pages (foldl pack_step packer_init ps))
             @ [last (pages (foldl pack_step packer_init ps)) @ nlnl
                  @ join_py nlnl (current (foldl pack_step packer_init ps))]
      \<or> pages (foldl pack_step packer_init (ps @ [para]))
           = pages (foldl pack_step packer_init ps)
             @ [join_py nlnl (current (foldl pack_step packer_init ps))])"
proof -
  let ?st = "foldl pack_step packer_init ps"
  have w: "within_budget ?st"
    by (rule within_budget_foldl [OF within_budget_init])
  then have l: "current_len ?st = sum_list (map length (current ?st))"
    by (simp add: within_budget_def)
  have "\<exists>p. current ?st = [p] \<and> 1000 < length p"
    if "1000 < sum_list (map length (current ?st))"
  proof -
    have "length (current ?st) = 1"
      using w that l by (simp add: within_budget_def TARGET_CHARS_PER_PAGE_def)
    then obtain p where "current ?st = [p]"
      by (cases "current ?st") auto
    with that show ?thesis by simp
  qed
  moreover have "foldl pack_step packer_init (ps @ [para]) = pack_step ?st para"
    by simp
  ultimately show ?thesis
    using l pack_step_pages [of ?st para] by presburger
qed

lemma long_not_break: "replicate 999 (CHR ''a'') \<noteq> PAGE_BREAK"
proof
  assume "replicate 999 (CHR ''a'') = PAGE_BREAK"
  then have "length (replicate 999 (CHR ''a'')) = length PAGE_BREAK" by simp
  then show False by (simp add: PAGE_BREAK_def)
qed

lemma long_not_heading: "\<not> is_heading (replicate 999 (CHR ''a''))"
proof -
  have "replicate 999 (CHR ''a'') = CHR ''a'' # replicate 998 (CHR ''a'')"
    by (simp add: replicate_Suc [symmetric] del: replicate_Suc)
  then show ?thesis
    by (simp add: is_heading_def lstrip_def isspace_def startswith_def)
qed

lemma pack_budget_example:
  "pack_pages [''# A'', replicate 999 (CHR ''a'')] = [''# A'', replicate 999 (CHR ''a'')]"
proof -
  have h: "is_heading ''# A''" "''# A'' \<noteq> PAGE_BREAK"
    by (simp_all add: is_heading_def lstrip_def isspace_def startswith_def PAGE_BREAK_def)
  have 1: "pack_step packer_init ''# A'' = \<lparr> pages = [], current = [''# A''], current_len = 3 \<rparr>"
    using h by (simp add: pack_step_def packer_init_def)
  have 2: "pack_step \<lparr> pages = [], current = [''# A''], current_len = 3 \<rparr> (replicate 999 (CHR ''a''))
      = \<lparr> pages = [''# A''], current = [replicate 999 (CHR ''a'')], current_len = 999 \<rparr>"
    using long_not_break long_not_heading by (simp add: pack_step_def TARGET_CHARS_PER_PAGE_def)
  show ?thesis
    by (simp add: pack_pages_def 1 2)
qed

text \<open>
  Claim C3 as stated fails: a heading of 3 characters followed by a paragraph of 999
  characters is packed as two pages (3 + 999 exceeds 1000) and the repair pass merges
  the heading-only page into its successor: a page of 1004 characters (1002 without
  the separator) none of whose paragraphs is longer than 1000.
\<close>

theorem budget_exceeded_by_merge_counterexample:
  "build_pages_from_paragraphs [''# A'', replicate 999 (CHR ''a'')]
     = [''# A'' @ nlnl @ replicate 999 (CHR ''a'')]
   \<and> length (''# A'' @ nlnl @ replicate 999 (CHR ''a'')) = 1004
   \<and> length ''# A'' + length (replicate 999 (CHR ''a'')) = 1002
   \<and> length ''# A'' = 3
   \<and> length (replicate 999 (CHR ''a'')) = 999"
proof -
  have h: "heading_only ''# A''"
    by (simp add: heading_only_def string_eval split_py_Cons)
  have b: "repair_body (0, [''# A'', replicate 999 (CHR ''a'')])
      = (0, [''# A'' @ nlnl @ replicate 999 (CHR ''a'')])"
    using h by (simp add: repair_body_def merge_next_def)
  have "repair_loop (0, [''# A'', replicate 999 (CHR ''a'')])
      = repair_loop (0, [''# A'' @ nlnl @ replicate 999 (CHR ''a'')])"
    by (subst repair_loop.simps) (simp add: repair_cond_def b)
  also have "\<dots> = [''# A'' @ nlnl @ replicate 999 (CHR ''a'')]"
    by (subst repair_loop.simps) (simp add: repair_cond_def)
  finally show ?thesis
    by (simp add: build_pages_from_paragraphs_def pack_budget_example)
qed

theorem pending_page_within_budget_witness:
  "foldl pack_step packer_init [''# A'', replicate 1001 (CHR ''a'')]
     = \<lparr> pages = [''# A''], current = [replicate 1001 (CHR ''a'')], current_len = 1001 \<rparr>
   \<and> (1000::nat) < sum_list (map length [replicate 1001 (CHR ''a'')])
   \<and> (1000::nat) < length (replicate 1001 (CHR ''a''))"
proof -
  have nb: "replicate 1001 (CHR ''a'') \<noteq> PAGE_BREAK"
  proof
    assume "replicate 1001 (CHR ''a'') = PAGE_BREAK"
    then have "length (replicate 1001 (CHR ''a'')) = length PAGE_BREAK" by simp
    then show False by (simp add: PAGE_BREAK_def)
  qed
  have "replicate 1001 (CHR ''a'') = CHR ''a'' # replicate 1000 (CHR ''a'')"
    by (simp add: replicate_Suc [symmetric] del: replicate_Suc)
  then have nh: "\<not> is_heading (replicate 1001 (CHR ''a''))"
    by (simp add: is_heading_def lstrip_def isspace_def startswith_def)
  have h: "is_heading ''# A''" "''# A'' \<noteq> PAGE_BREAK"
    by (simp_all add: is_heading_def lstrip_def isspace_def startswith_def PAGE_BREAK_def)
  have 1: "pack_step packer_init ''# A'' = \<lparr> pages = [], current = [''# A''], current_len = 3 \<rparr>"
    using h by (simp add: pack_step_def packer_init_def)
  have 2: "pack_step \<lparr> pages = [], current = [''# A''], current_len = 3 \<rparr> (replicate 1001 (CHR ''a''))
      = \<lparr> pages = [''# A''], current = [replicate 1001 (CHR ''a'')], current_len = 1001 \<rparr>"
    using nb nh by (simp add: pack_step_def TARGET_CHARS_PER_PAGE_def)
  have f: "foldl pack_step packer_init [''# A'', replicate 1001 (CHR ''a'')]
     = \<lparr> pages = [''# A''], current = [replicate 1001 (CHR ''a'')], current_len = 1001 \<rparr>"
    by (simp add: 1 2)
  show ?thesis
    using pending_page_within_budget [of "[''# A'', replicate 1001 (CHR ''a'')]" "[]"]
    unfolding f by simp
qed

section \<open>Heading-only pages after repair\<close>

lemma para_ok_not_blank: "para_ok b \<Longrightarrow> strip b \<noteq> []"
proof -
  assume "para_ok b"
  then have "b \<noteq> []" "\<not> isspace (last b)"
    by (simp_all add: para_ok_def)
  then have "\<exists>c \<in> set b. \<not> isspace c"
    using last_in_set by blast
  then show ?thesis
    by (simp add: strip_Nil_iff)
qed

lemma heading_only_blocks:
  assumes "\<forall>b \<in> set (split_py nlnl pg). strip b \<noteq> []"
  shows "heading_only pg \<longleftrightarrow> (\<exists>p. split_py nlnl pg = [p] \<and> is_heading p)"
proof -
  have "filter (\<lambda>b. strip b \<noteq> []) (split_py nlnl pg) = split_py nlnl pg"
    using assms by simp
  then show ?thesis
    by (auto simp: heading_only_def is_heading_def length_Suc_conv Let_def)
qed

lemma page_blocks_ok:
  assumes "pg \<in> set (build_pages_from_paragraphs (parse_paragraphs manuscript))"
    and "b \<in> set (split_py nlnl pg)"
  shows "para_ok b"
proof -
  have "b \<in> set (concat (map (split_py nlnl) (build_pages_from_paragraphs (parse_paragraphs manuscript))))"
    using assms by auto
  then have "b \<in> set (parse_paragraphs manuscript)"
    using build_pages_ok [OF parse_paragraphs_ok [of manuscript]] by simp
  then show ?thesis
    using parse_paragraphs_ok [of manuscript] by blast
qed

text \<open>
  What the repair loop does guarantee, for every paragraph sequence: no page of the result
  other than the last one passes the loop's heading-only test (exactly one block that is
  not blank, and that block a heading), and the loop only concatenates neighbouring pages
  with the blank-line separator, so that the text of the pages joined is the packer's.
  For the paragraphs of a manuscript the test is exact: no page other than the last
  consists of a single paragraph that is a heading.
\<close>

lemma no_inner_heading_only_page:
  "(\<forall>j. Suc j < length (build_pages_from_paragraphs ps) \<longrightarrow>
         \<not> heading_only (build_pages_from_paragraphs ps ! j))
   \<and> join_py nlnl (build_pages_from_paragraphs ps) = join_py nlnl (pack_pages ps)
   \<and> (\<forall>j. Suc j < length (build_pages_from_paragraphs (parse_paragraphs manuscript)) \<longrightarrow>
         \<not> (\<exists>p. split_py nlnl (build_pages_from_paragraphs (parse_paragraphs manuscript) ! j) = [p]
               \<and> is_heading p))"
proof (intro conjI allI impI)
  fix j assume "Suc j < length (build_pages_from_paragraphs ps)"
  then show "\<not> heading_only (build_pages_from_paragraphs ps ! j)"
    unfolding build_pages_from_paragraphs_def
    by (intro repair_loop_inner) simp_all
next
  show "join_py nlnl (build_pages_from_paragraphs ps) = join_py nlnl (pack_pages ps)"
    by (simp add: build_pages_from_paragraphs_def join_repair_loop)
next
  let ?out = "build_pages_from_paragraphs (parse_paragraphs manuscript)"
  fix j assume j: "Suc j < length ?out"
  then have "\<not> heading_only (?out ! j)"
    unfolding build_pages_from_paragraphs_def
    by (intro repair_loop_inner) simp_all
  moreover have "?out ! j \<in> set ?out"
    using j by simp
  then have "\<forall>b \<in> set (split_py nlnl (?out ! j)). strip b \<noteq> []"
    using page_blocks_ok para_ok_not_blank by blast
  then have "heading_only (?out ! j) \<longleftrightarrow> (\<exists>p. split_py nlnl (?out ! j) = [p] \<and> is_heading p)"
    by (rule heading_only_blocks)
  ultimately show "\<not> (\<exists>p. split_py nlnl (?out ! j) = [p] \<and> is_heading p)"
    by blast
qed

lemma no_inner_heading_only_page_example:
  "parse_paragraphs ''# A\<newline>\<newline># B\<newline>\<newline>body\<newline>===PAGE===\<newline># C''
     = [''# A'', ''# B'', ''body'', PAGE_BREAK, ''# C'']
   \<and> pack_pages [''# A'', ''# B'', ''body'', PAGE_BREAK, ''# C'']
     = [''# A'', ''# B'' @ nlnl @ ''body'', ''# C'']
   \<and> build_pages_from_paragraphs [''# A'', ''# B'', ''body'', PAGE_BREAK, ''# C'']
     = [''# A'' @ nlnl @ ''# B'' @ nlnl @ ''body'', ''# C'']
   \<and> \<not> heading_only (build_pages_from_paragraphs [''# A'', ''# B'', ''body'', PAGE_BREAK, ''# C''] ! 0)
   \<and> split_py nlnl (build_pages_from_paragraphs [''# A'', ''# B'', ''body'', PAGE_BREAK, ''# C''] ! 0)
     = [''# A'', ''# B'', ''body'']
   \<and> heading_only (build_pages_from_paragraphs [''# A'', ''# B'', ''body'', PAGE_BREAK, ''# C''] ! 1)"
proof -
  let ?ps = "[''# A'', ''# B'', ''body'', PAGE_BREAK, ''# C'']"
  let ?ms = "''# A\<newline>\<newline># B\<newline>\<newline>body\<newline>===PAGE===\<newline># C''"
  have m: "parse_paragraphs ?ms = ?ps"
    by (simp add: parse_eval string_eval PAGE_BREAK_def)
  have p: "pack_pages ?ps = [''# A'', ''# B'' @ nlnl @ ''body'', ''# C'']"
    by (simp add: packer_eval string_eval)
  have b: "build_pages_from_paragraphs ?ps = [''# A'' @ nlnl @ ''# B'' @ nlnl @ ''body'', ''# C'']"
    unfolding build_pages_from_paragraphs_def p
    by (simp add: repair_eval string_eval split_py_Cons)
  have h: "heading_only ''# C''"
    by (simp add: heading_only_def string_eval split_py_Cons)
  have s: "split_py nlnl (''# A'' @ nlnl @ ''# B'' @ nlnl @ ''body'') = [''# A'', ''# B'', ''body'']"
    by (simp add: split_py_Cons)
  show ?thesis
    using no_inner_heading_only_page [where ps = ?ps and manuscript = ?ms] m p h s
    by (simp add: b)
qed

lemma run_not_break: "n \<noteq> 14 \<Longrightarrow> replicate n c \<noteq> PAGE_BREAK"
proof
  assume "n \<noteq> 14" and "replicate n c = PAGE_BREAK"
  then have "length (replicate n c) = length PAGE_BREAK" by simp
  with \<open>n \<noteq> 14\<close> show False by (simp add: PAGE_BREAK_def)
qed

lemma run_not_heading: "\<not> is_heading (replicate n (CHR ''a''))"
  by (cases n) (simp_all add: is_heading_def lstrip_def isspace_def startswith_def)

lemma split_py_nl_single: "CHR 0x0A \<notin> set s \<Longrightarrow> split_py nl s = [s]"
  by (induction s) (auto simp: split_py_nl_Cons)

lemma parse_two_headings:
  "parse_paragraphs (''# A\<newline>\<newline># B\<newline>\<newline>'' @ replicate 998 (CHR ''a''))
     = [''# A'', ''# B'', replicate 998 (CHR ''a'')]"
proof -
  let ?r = "replicate 998 (CHR ''a'')"
  have "''# A\<newline>\<newline># B\<newline>\<newline>'' @ ?r = ''# A'' @ nl @ ([] @ nl @ (''# B'' @ nl @ ([] @ nl @ ?r)))"
    by simp
  then have l: "split_py nl (''# A\<newline>\<newline># B\<newline>\<newline>'' @ ?r) = [''# A'', [], ''# B'', [], ?r]"
    by (simp only: split_py_nl_append) (simp add: split_py_nl_single)
  have r: "rstrip_cr ?r = ?r" "strip ?r = ?r" "?r \<noteq> PAGE_SENTINEL" "?r \<noteq> []"
    by (auto simp: rstrip_cr_def strip_def isspace_def PAGE_SENTINEL_def dest: arg_cong [of _ _ length])
  show ?thesis
    unfolding parse_paragraphs_def l
    by (simp add: parse_step_def r) (simp add: flush_def r PAGE_SENTINEL_def string_eval)
qed

text \<open>
  Claim C1 fails on the code. Two headings followed by a paragraph of 998 characters are
  packed as three pages (3 + 998 exceeds 1000), the second of them the heading-only page
  \<open># B\<close>. The repair loop merges the first page into it; the merged page has two blocks,
  so the re-check at the same cursor does not find it heading-only and nothing cascades.
  The page \<open># B\<close> is not merged into its successor, and the first page of the result
  holds headings only although it is not the last.
\<close>

theorem heading_pages_not_cascaded:
  "parse_paragraphs (''# A\<newline>\<newline># B\<newline>\<newline>'' @ replicate 998 (CHR ''a''))
     = [''# A'', ''# B'', replicate 998 (CHR ''a'')]
   \<and> pack_pages [''# A'', ''# B'', replicate 998 (CHR ''a'')]
     = [''# A'', ''# B'', replicate 998 (CHR ''a'')]
   \<and> heading_only ''# B''
   \<and> build_pages_from_paragraphs [''# A'', ''# B'', replicate 998 (CHR ''a'')]
     = [''# A'' @ nlnl @ ''# B'', replicate 998 (CHR ''a'')]
   \<and> build_pages_from_paragraphs [''# A'', ''# B'', replicate 998 (CHR ''a'')]
     \<noteq> [''# A'' @ nlnl @ ''# B'' @ nlnl @ replicate 998 (CHR ''a'')]
   \<and> split_py nlnl (''# A'' @ nlnl @ ''# B'') = [''# A'', ''# B'']
   \<and> is_heading ''# A'' \<and> is_heading ''# B''
   \<and> \<not> heading_only (''# A'' @ nlnl @ ''# B'')"
proof -
  let ?r = "replicate 998 (CHR ''a'')"
  have h: "is_heading ''# A''" "''# A'' \<noteq> PAGE_BREAK" "is_heading ''# B''" "''# B'' \<noteq> PAGE_BREAK"
    by (simp_all add: is_heading_def lstrip_def isspace_def startswith_def PAGE_BREAK_def)
  have r: "?r \<noteq> PAGE_BREAK" "\<not> is_heading ?r"
    by (simp_all add: run_not_break run_not_heading)
  have 1: "pack_step packer_init ''# A'' = \<lparr> pages = [], current = [''# A''], current_len = 3 \<rparr>"
    using h by (simp add: pack_step_def packer_init_def)
  have 2: "pack_step \<lparr> pages = [], current = [''# A''], current_len = 3 \<rparr> ''# B''
      = \<lparr> pages = [''# A''], current = [''# B''], current_len = 3 \<rparr>"
    using h by (simp add: pack_step_def)
  have 3: "pack_step \<lparr> pages = [''# A''], current = [''# B''], current_len = 3 \<rparr> ?r
      = \<lparr> pages = [''# A'', ''# B''], current = [?r], current_len = 998 \<rparr>"
    using r by (simp add: pack_step_def TARGET_CHARS_PER_PAGE_def)
  have p: "pack_pages [''# A'', ''# B'', ?r] = [''# A'', ''# B'', ?r]"
    by (simp add: pack_pages_def 1 2 3)
  have ha: "heading_only ''# A''" and hb: "heading_only ''# B''"
    and hab: "\<not> heading_only (''# A'' @ nlnl @ ''# B'')"
    and s: "split_py nlnl (''# A'' @ nlnl @ ''# B'') = [''# A'', ''# B'']"
    by (simp_all add: heading_only_def string_eval split_py_Cons)
  have b1: "repair_body (0, [''# A'', ''# B'', ?r]) = (0, [''# A'' @ nlnl @ ''# B'', ?r])"
    using ha by (simp add: repair_body_def merge_next_def)
  have b2: "repair_body (0, [''# A'' @ nlnl @ ''# B'', ?r]) = (1, [''# A'' @ nlnl @ ''# B'', ?r])"
    using hab by (simp add: repair_body_def)
  have "repair_loop (0, [''# A'', ''# B'', ?r]) = repair_loop (0, [''# A'' @ nlnl @ ''# B'', ?r])"
    by (subst repair_loop.simps) (simp add: repair_cond_def b1)
  also have "\<dots> = repair_loop (1, [''# A'' @ nlnl @ ''# B'', ?r])"
    by (subst repair_loop.simps) (use b2 in \<open>simp add: repair_cond_def\<close>)
  also have "\<dots> = [''# A'' @ nlnl @ ''# B'', ?r]"
    by (subst repair_loop.simps) (simp add: repair_cond_def)
  finally have b: "build_pages_from_paragraphs [''# A'', ''# B'', ?r] = [''# A'' @ nlnl @ ''# B'', ?r]"
    by (simp add: build_pages_from_paragraphs_def p)
  show ?thesis
    unfolding b using parse_two_headings p hb s h(1,3) hab by simp
qed

end
